theory Spec2Isabelle
  imports Main
begin

section \<open>Strings and regular expressions as the Python code uses them\<close>

text \<open>
  A Python \<open>str\<close> is modelled as a \<^typ>\<open>string\<close> whose characters are the code points
  below 256. On that range the classes of the \<open>re\<close> module for \<open>str\<close> patterns are:
  \<^item> \<open>\s\<close> and \<open>str.strip\<close>: the code points 9 to 13, 28 to 32, 133 and 160;
  \<^item> \<open>\w\<close>: the alphanumeric code points (\<open>str.isalnum\<close>) and the underscore;
  \<^item> \<open>re.IGNORECASE\<close> on an ASCII letter of a pattern: that letter in either case.
\<close>

definition is_space :: "char \<Rightarrow> bool" where
  "is_space c =
     (let n = (of_char c :: nat)
      in (9 \<le> n \<and> n \<le> 13) \<or> (28 \<le> n \<and> n \<le> 32) \<or> n = 133 \<or> n = 160)"

definition is_word :: "char \<Rightarrow> bool" where
  "is_word c =
     (let n = (of_char c :: nat)
      in (48 \<le> n \<and> n \<le> 57) \<or> (65 \<le> n \<and> n \<le> 90) \<or> n = 95 \<or> (97 \<le> n \<and> n \<le> 122)
         \<or> n = 170 \<or> n = 178 \<or> n = 179 \<or> n = 181 \<or> n = 185 \<or> n = 186
         \<or> (188 \<le> n \<and> n \<le> 190) \<or> (192 \<le> n \<and> n \<le> 214) \<or> (216 \<le> n \<and> n \<le> 246)
         \<or> (248 \<le> n \<and> n \<le> 255))"

definition ascii_lower :: "char \<Rightarrow> char" where
  "ascii_lower c =
     (case map_of (zip ''ABCDEFGHIJKLMNOPQRSTUVWXYZ'' ''abcdefghijklmnopqrstuvwxyz'') c of
        Some l \<Rightarrow> l
      | None \<Rightarrow> c)"

text \<open>\<open>str.strip()\<close>: leading and trailing whitespace removed.\<close>

definition strip :: "string \<Rightarrow> string" where
  "strip s = rev (dropWhile is_space (rev (dropWhile is_space s)))"

text \<open>\<open>s.startswith(p)\<close> and \<open>s.endswith(p)\<close>.\<close>

definition startswith :: "string \<Rightarrow> string \<Rightarrow> bool" where
  "startswith s p = (take (length p) s = p)"

definition endswith :: "string \<Rightarrow> string \<Rightarrow> bool" where
  "endswith s p = (length p \<le> length s \<and> drop (length s - length p) s = p)"

text \<open>\<open>sep.join(xs)\<close>.\<close>

fun join :: "string \<Rightarrow> string list \<Rightarrow> string" where
  "join sep [] = []"
| "join sep [x] = x"
| "join sep (x # y # ys) = x @ sep @ join sep (y # ys)"

text \<open>
  Every regular expression of the repository that is modelled here is a sequence of items: a word
  boundary \<open>\b\<close>, one character of a class (a literal is a class of one character, or of
  its two cases under \<open>IGNORECASE\<close>), a class under a greedy \<open>?\<close>, \<open>*\<close> or \<open>+\<close>, and
  the lazy capturing group \<open>([\s\S]*?)\<close>.
\<close>

datatype rx_item =
    Bnd
  | One "char \<Rightarrow> bool"
  | Opt "char \<Rightarrow> bool"
  | Star "char \<Rightarrow> bool"
  | Plus "char \<Rightarrow> bool"
  | Lazy_group

type_synonym pattern = "rx_item list"

fun next_is_word :: "string \<Rightarrow> bool" where
  "next_is_word [] = False"
| "next_is_word (c # s) = is_word c"

text \<open>
  \<open>rx_match pat w s\<close> matches \<open>pat\<close> at the start of \<open>s\<close>, where \<open>w\<close> tells whether the
  character before \<open>s\<close> is a word character (\<open>False\<close> at the start of the text). It
  backtracks in the order of the \<open>re\<close> module (a greedy item takes a character first, the
  lazy group takes none first) and returns the text of the group, empty when the pattern
  has none.
\<close>

fun rx_match :: "pattern \<Rightarrow> bool \<Rightarrow> string \<Rightarrow> string option" where
  "rx_match [] w s = Some []"
| "rx_match (Bnd # r) w s = (if w \<noteq> next_is_word s then rx_match r w s else None)"
| "rx_match (One p # r) w [] = None"
| "rx_match (One p # r) w (c # s) = (if p c then rx_match r (is_word c) s else None)"
| "rx_match (Opt p # r) w [] = rx_match r w []"
| "rx_match (Opt p # r) w (c # s) =
     (if p c
      then (case rx_match r (is_word c) s of
              Some g \<Rightarrow> Some g
            | None \<Rightarrow> rx_match r w (c # s))
      else rx_match r w (c # s))"
| "rx_match (Star p # r) w [] = rx_match r w []"
| "rx_match (Star p # r) w (c # s) =
     (if p c
      then (case rx_match (Star p # r) (is_word c) s of
              Some g \<Rightarrow> Some g
            | None \<Rightarrow> rx_match r w (c # s))
      else rx_match r w (c # s))"
| "rx_match (Plus p # r) w [] = None"
| "rx_match (Plus p # r) w (c # s) =
     (if p c then rx_match (Star p # r) (is_word c) s else None)"
| "rx_match (Lazy_group # r) w [] = rx_match r w []"
| "rx_match (Lazy_group # r) w (c # s) =
     (case rx_match r w (c # s) of
        Some g \<Rightarrow> Some g
      | None \<Rightarrow> map_option ((#) c) (rx_match (Lazy_group # r) (is_word c) s))"

text \<open>\<open>pattern.search(s)\<close>: the match at the leftmost position that has one.\<close>

fun rx_search_from :: "pattern \<Rightarrow> bool \<Rightarrow> string \<Rightarrow> string option" where
  "rx_search_from pat w [] = rx_match pat w []"
| "rx_search_from pat w (c # s) =
     (case rx_match pat w (c # s) of
        Some g \<Rightarrow> Some g
      | None \<Rightarrow> rx_search_from pat (is_word c) s)"

definition re_search :: "pattern \<Rightarrow> string \<Rightarrow> string option" where
  "re_search pat s = rx_search_from pat False s"

definition found :: "pattern \<Rightarrow> string \<Rightarrow> bool" where
  "found pat s = (re_search pat s \<noteq> None)"

text \<open>Literal text, as written and under \<open>re.IGNORECASE\<close>; classes.\<close>

definition ch :: "char \<Rightarrow> char \<Rightarrow> bool" where
  "ch a c = (c = a)"

definition chi :: "char \<Rightarrow> char \<Rightarrow> bool" where
  "chi a c = (ascii_lower c = ascii_lower a)"

definition one_of :: "string \<Rightarrow> char \<Rightarrow> bool" where
  "one_of cs c = (c \<in> set cs)"

definition one_of_i :: "string \<Rightarrow> char \<Rightarrow> bool" where
  "one_of_i cs c = (ascii_lower c \<in> set cs)"

definition lit :: "string \<Rightarrow> pattern" where
  "lit s = map (\<lambda>a. One (ch a)) s"

definition lit_i :: "string \<Rightarrow> pattern" where
  "lit_i s = map (\<lambda>a. One (chi a)) s"

section \<open>The command security validator (\<open>processing/command_executor.py\<close>)\<close>

text \<open>
  \<open>_DANGEROUS_PATTERNS\<close>, in the order of the source; the first eight and the last five
  are compiled with \<open>re.IGNORECASE\<close>.
\<close>

definition DANGEROUS_PATTERNS :: "pattern list" where
  "DANGEROUS_PATTERNS =
    [ Bnd # lit_i ''rm'' @ [Plus is_space, One (ch CHR ''-''), One (chi CHR ''r''), Opt (chi CHR ''f''), Bnd],
      Bnd # lit_i ''rm'' @ [Plus is_space],
      Bnd # lit_i ''del'' @ [Plus is_space, One (ch CHR ''/''), One (one_of_i ''sfq''), Bnd],
      Bnd # lit_i ''del'' @ [Plus is_space],
      Bnd # lit_i ''format'' @ [Plus is_space, One (one_of_i ''abcdefghijklmnopqrstuvwxyz''), One (ch CHR '':'')],
      Bnd # lit_i ''system'' @ [Star is_space, One (ch CHR ''('')],
      Bnd # lit_i ''exec'' @ [Star is_space, One (ch CHR ''('')],
      Bnd # lit_i ''eval'' @ [Star is_space, One (ch CHR ''('')],
      [One (one_of ''&|`'')],
      lit ''$('',
      lit ''${'',
      [One (ch CHR ''>''), Star is_space, One (one_of [CHR ''/'', CHR 0x5C])],
      Bnd # lit_i ''sudo'' @ [Bnd],
      Bnd # lit_i ''chmod'' @ [Bnd],
      Bnd # lit_i ''chown'' @ [Bnd],
      Bnd # lit_i ''mkfs'' @ [Bnd],
      Bnd # lit_i ''dd'' @ [Plus is_space] @ lit_i ''if='' ]"

definition FILTER_FLAGS :: "string list" where
  "FILTER_FLAGS = [''-vf'', ''-af'', ''-filter_complex'', ''-filter:v'', ''-filter:a'']"

definition VALID_EXECUTABLES :: "string list" where
  "VALID_EXECUTABLES = [''ffmpeg'', ''ffprobe'']"

text \<open>
  The \<open>while i < len(command)\<close> loop of \<open>_is_command_secure\<close>, as a recursion on the
  arguments from index \<open>i\<close> on: a filter flag that has a next argument is skipped together
  with that argument (\<open>i += 2\<close>), any other argument is kept (\<open>i += 1\<close>).
\<close>

fun non_filter_args :: "string list \<Rightarrow> string list" where
  "non_filter_args [] = []"
| "non_filter_args [a] = [a]"
| "non_filter_args (a # b # rest) =
     (if a \<in> set FILTER_FLAGS then non_filter_args rest
      else a # non_filter_args (b # rest))"

definition is_command_secure :: "string list \<Rightarrow> bool" where
  "is_command_secure command =
     (case command of
        [] \<Rightarrow> False
      | exe0 # _ \<Rightarrow>
          if list_ex (endswith exe0) VALID_EXECUTABLES
          then (let args = non_filter_args command;
                    cmd_str = join '' '' args
                in if list_ex (\<lambda>pat. found pat cmd_str) DANGEROUS_PATTERNS then False
                   else if list_ex (\<lambda>arg. CHR '';'' \<in> set arg) args then False
                   else True)
          else False)"


text \<open>
  The indices the loop skips as the value of a filter flag: the same recursion, started at
  index \<open>i\<close>, collecting the index after each filter flag that the scan reads as a flag.
\<close>

fun exempt_from :: "nat \<Rightarrow> string list \<Rightarrow> nat list" where
  "exempt_from i [] = []"
| "exempt_from i [a] = []"
| "exempt_from i (a # b # rest) =
     (if a \<in> set FILTER_FLAGS then Suc i # exempt_from (i + 2) rest
      else exempt_from (Suc i) (b # rest))"

definition exempt_args :: "string list \<Rightarrow> nat list" where
  "exempt_args command = exempt_from 0 command"

section \<open>Extracting the JSON text of a response (\<open>core/json_repair.py\<close>)\<close>

text \<open>
  The two \<open>markdown_patterns\<close>, searched with \<open>re.IGNORECASE\<close>:
  \<^verbatim>\<open>```json\s*([\s\S]*?)\s*```\<close> and \<^verbatim>\<open>```\s*([\s\S]*?)\s*```\<close>.
\<close>

definition markdown_patterns :: "pattern list" where
  "markdown_patterns =
    [ lit_i ''```json'' @ [Star is_space, Lazy_group, Star is_space] @ lit_i ''```'',
      lit_i ''```'' @ [Star is_space, Lazy_group, Star is_space] @ lit_i ''```'' ]"

text \<open>
  The loop over the patterns: the first pattern that matches and whose group, stripped,
  starts with an opening brace gives the result.
\<close>

fun first_markdown :: "pattern list \<Rightarrow> string \<Rightarrow> string option" where
  "first_markdown [] text = None"
| "first_markdown (pat # pats) text =
     (case re_search pat text of
        None \<Rightarrow> first_markdown pats text
      | Some g \<Rightarrow>
          (let extracted = strip g
           in if startswith extracted ''{'' then Some extracted
              else first_markdown pats text))"

text \<open>\<open>s.find(c)\<close> and \<open>s.rfind(c)\<close> for one character; \<open>None\<close> stands for \<open>-1\<close>.\<close>

definition str_find :: "string \<Rightarrow> char \<Rightarrow> nat option" where
  "str_find s c =
     (if c \<in> set s then Some (length (takeWhile (\<lambda>x. x \<noteq> c) s)) else None)"

definition str_rfind :: "string \<Rightarrow> char \<Rightarrow> nat option" where
  "str_rfind s c =
     (if c \<in> set s then Some (length s - 1 - length (takeWhile (\<lambda>x. x \<noteq> c) (rev s)))
      else None)"

definition extract_json_from_text :: "string \<Rightarrow> string" where
  "extract_json_from_text raw =
     (if raw = [] then raw
      else
        (let text = strip raw
         in if startswith text ''{'' \<and> endswith text ''}'' then text
            else
              (case first_markdown markdown_patterns text of
                 Some extracted \<Rightarrow> extracted
               | None \<Rightarrow>
                   (case (str_find text CHR ''{'', str_rfind text CHR ''}'') of
                      (Some first_brace, Some last_brace) \<Rightarrow>
                        if last_brace > first_brace
                        then take (last_brace + 1 - first_brace) (drop first_brace text)
                        else text
                    | _ \<Rightarrow> text))))"

section \<open>JSON values as Python holds them\<close>

text \<open>
  What \<open>json.loads\<close> returns. A float is kept as the text it was read from together with
  the one fact about its value that the code looks at, whether it is zero. An object is
  the list of its members in the order of the text; a later member with the same key
  replaces an earlier one.
\<close>

datatype json =
    JNull
  | JBool bool
  | JInt int
  | JFloat (is_zero: bool) (float_text: string)
  | JStr string
  | JArr "json list"
  | JObj "(string \<times> json) list"

definition members :: "(string \<times> json) list \<Rightarrow> string \<rightharpoonup> json" where
  "members kvs = map_of (rev kvs)"

text \<open>Python truth value of a JSON value (\<open>if value:\<close>).\<close>

fun truthy :: "json \<Rightarrow> bool" where
  "truthy JNull = False"
| "truthy (JBool b) = b"
| "truthy (JInt n) = (n \<noteq> 0)"
| "truthy (JFloat z t) = (\<not> z)"
| "truthy (JStr s) = (s \<noteq> [])"
| "truthy (JArr xs) = (xs \<noteq> [])"
| "truthy (JObj kvs) = (kvs \<noteq> [])"

fun is_list :: "json \<Rightarrow> bool" where
  "is_list (JArr xs) = True"
| "is_list v = False"

datatype py_exception = ValueError | TypeError | AttributeError | OverflowError

section \<open>Reading the duration of a media file (\<open>analysis/ffprobe_analyzer.py\<close>)\<close>

text \<open>
  The strings \<open>float()\<close> accepts: optional surrounding whitespace, an optional sign, then
  \<open>inf\<close>, \<open>infinity\<close> or \<open>nan\<close> in any case, or a decimal number with an optional
  exponent, where single underscores may separate digits.
\<close>

definition is_digit :: "char \<Rightarrow> bool" where
  "is_digit c = (let n = (of_char c :: nat) in 48 \<le> n \<and> n \<le> 57)"

fun digits_rest :: "string \<Rightarrow> string" where
  "digits_rest [] = []"
| "digits_rest [c] = (if is_digit c then [] else [c])"
| "digits_rest (c # d # s) =
     (if is_digit c then digits_rest (d # s)
      else if c = CHR ''_'' \<and> is_digit d then digits_rest s
      else c # d # s)"

definition digitpart :: "string \<Rightarrow> string option" where
  "digitpart s =
     (case s of
        [] \<Rightarrow> None
      | c # t \<Rightarrow> if is_digit c then Some (digits_rest t) else None)"

definition drop_sign :: "string \<Rightarrow> string" where
  "drop_sign s =
     (case s of
        [] \<Rightarrow> []
      | c # t \<Rightarrow> if c = CHR ''+'' \<or> c = CHR ''-'' then t else s)"

definition exponent_ok :: "string \<Rightarrow> bool" where
  "exponent_ok s =
     (case s of
        [] \<Rightarrow> True
      | c # t \<Rightarrow>
          if c = CHR ''e'' \<or> c = CHR ''E''
          then (case digitpart (drop_sign t) of Some r \<Rightarrow> r = [] | None \<Rightarrow> False)
          else False)"

definition fraction_ok :: "string \<Rightarrow> bool" where
  "fraction_ok s =
     (case s of
        [] \<Rightarrow> False
      | c # t \<Rightarrow>
          if c = CHR ''.''
          then (case digitpart t of Some r \<Rightarrow> exponent_ok r | None \<Rightarrow> False)
          else False)"

definition floatnumber :: "string \<Rightarrow> bool" where
  "floatnumber s =
     (case digitpart s of
        None \<Rightarrow> fraction_ok s
      | Some r \<Rightarrow>
          (case r of
             [] \<Rightarrow> True
           | c # t \<Rightarrow>
               if c = CHR ''.''
               then (case digitpart t of Some r2 \<Rightarrow> exponent_ok r2 | None \<Rightarrow> exponent_ok t)
               else exponent_ok r))"

text \<open>
  The whitespace that \<open>float()\<close> skips at both ends of a string: the whitespace of the C
  locale, and the space characters outside ASCII, which it first turns into spaces. Below
  256 these are the code points 9 to 13, 32, 133 and 160. The separators 28 to 31, which
  \<open>str.strip\<close> removes, are not skipped: \<open>float("1\x1c")\<close> raises \<open>ValueError\<close>.
\<close>

definition is_float_space :: "char \<Rightarrow> bool" where
  "is_float_space c =
     (let n = (of_char c :: nat)
      in (9 \<le> n \<and> n \<le> 13) \<or> n = 32 \<or> n = 133 \<or> n = 160)"

definition float_strip :: "string \<Rightarrow> string" where
  "float_strip s = rev (dropWhile is_float_space (rev (dropWhile is_float_space s)))"

definition is_float_literal :: "string \<Rightarrow> bool" where
  "is_float_literal s =
     (let u = drop_sign (float_strip s)
      in if map ascii_lower u \<in> set [''inf'', ''infinity'', ''nan''] then True
         else floatnumber u)"

text \<open>
  The exception \<open>float(x)\<close> raises on a JSON value, if any: \<open>ValueError\<close> on a string that
  is no float literal, \<open>TypeError\<close> on \<open>None\<close>, a list or an object, \<open>OverflowError\<close> on
  an integer that rounds to no finite double.
\<close>

fun float_raises :: "json \<Rightarrow> py_exception option" where
  "float_raises JNull = Some TypeError"
| "float_raises (JBool b) = None"
| "float_raises (JInt n) =
     (if abs n \<ge> 2 ^ 1024 - 2 ^ 970 then Some OverflowError else None)"
| "float_raises (JFloat z t) = None"
| "float_raises (JStr s) = (if is_float_literal s then None else Some ValueError)"
| "float_raises (JArr xs) = Some TypeError"
| "float_raises (JObj kvs) = Some TypeError"

text \<open>\<open>x.get(key, default)\<close>: only a dict has the method.\<close>

fun py_get :: "json \<Rightarrow> string \<Rightarrow> json \<Rightarrow> py_exception + json" where
  "py_get (JObj kvs) key dflt =
     (case members kvs key of None \<Rightarrow> Inr dflt | Some v \<Rightarrow> Inr v)"
| "py_get v key dflt = Inl AttributeError"

definition MAX_FFPROBE_OUTPUT_SIZE :: nat where
  "MAX_FFPROBE_OUTPUT_SIZE = 1024 * 1024"

text \<open>
  How the \<open>ffprobe\<close> subprocess ended: it completed with exit status 0 and this standard
  output, or \<open>subprocess.run\<close> raised \<open>TimeoutExpired\<close>, \<open>CalledProcessError\<close> (a
  non-zero exit status under \<open>check=True\<close>) or \<open>OSError\<close>.
\<close>

datatype probe_run = Completed string | Timeout_expired | Called_process_error | Os_error

text \<open>The duration returned: \<open>float(dur)\<close> of this JSON value.\<close>

datatype seconds = Float_of json

text \<open>
  \<open>_ffprobe_duration\<close>. \<open>installed\<close> tells whether \<open>shutil.which("ffprobe")\<close> finds the
  program, \<open>loads\<close> is \<open>json.loads\<close> with \<open>None\<close> for a \<open>JSONDecodeError\<close>. The result is
  \<open>Inr None\<close> for the Python \<open>None\<close>, \<open>Inr (Some d)\<close> for a duration, and \<open>Inl e\<close> for an
  exception that no \<open>except\<close> clause of the function catches.
\<close>

definition ffprobe_duration ::
  "bool \<Rightarrow> (string \<Rightarrow> json option) \<Rightarrow> probe_run \<Rightarrow> py_exception + seconds option" where
  "ffprobe_duration installed loads run =
     (if \<not> installed then Inr None
      else
        (case run of
           Timeout_expired \<Rightarrow> Inr None
         | Called_process_error \<Rightarrow> Inr None
         | Os_error \<Rightarrow> Inr None
         | Completed stdout \<Rightarrow>
             if length stdout > MAX_FFPROBE_OUTPUT_SIZE then Inr None
             else
               (case loads stdout of
                  None \<Rightarrow> Inr None
                | Some data \<Rightarrow>
                    (case py_get data ''format'' (JObj []) of
                       Inl e \<Rightarrow> Inl e
                     | Inr fmt \<Rightarrow>
                         (case py_get fmt ''duration'' JNull of
                            Inl e \<Rightarrow> Inl e
                          | Inr dur \<Rightarrow>
                              if dur = JNull then Inr None
                              else
                                (case float_raises dur of
                                   Some e \<Rightarrow> Inl e
                                 | None \<Rightarrow> Inr (Some (Float_of dur))))))))"

section \<open>The command line entry point (\<open>main.py\<close>)\<close>

text \<open>
  The classes of exceptions \<open>main\<close> distinguishes. \<open>Other_media_error\<close> is any further
  subclass of \<open>MediaLLMError\<close>, \<open>Other_os_error\<close> of \<open>OSError\<close>, \<open>Other_exception\<close> of
  \<open>Exception\<close>; \<open>SystemExit\<close> carries its exit status.
\<close>

datatype exc_class =
    BaseException
  | Exception
  | KeyboardInterrupt
  | SystemExit nat
  | OSError
  | Other_os_error string
  | MediaLLMError
  | SecurityError
  | ValidationError
  | ConfigError
  | TranslationError
  | ConstructionError
  | ExecError
  | Other_media_error string
  | Other_exception string

text \<open>
  Modelled from the spec: \<open>utils/exceptions.py\<close>, which declares the error classes, is
  missing. Section 7 of the spec lists the six kinds as siblings ("structured exceptions
  carrying a human-readable message and a machine-distinguishable kind") and \<open>main.py\<close>
  calls \<open>MediaLLMError\<close> the class of "any other MediaLLM-specific errors": each kind is
  taken as a direct subclass of \<open>MediaLLMError\<close>, itself a subclass of \<open>Exception\<close>.
  The classes of Python itself are as in the language. \<open>mro c\<close> lists \<open>c\<close> and the classes
  it inherits from.
\<close>

fun mro :: "exc_class \<Rightarrow> exc_class list" where
  "mro BaseException = [BaseException]"
| "mro Exception = [Exception, BaseException]"
| "mro KeyboardInterrupt = [KeyboardInterrupt, BaseException]"
| "mro (SystemExit n) = [SystemExit n, BaseException]"
| "mro OSError = [OSError, Exception, BaseException]"
| "mro (Other_os_error x) = [Other_os_error x, OSError, Exception, BaseException]"
| "mro MediaLLMError = [MediaLLMError, Exception, BaseException]"
| "mro (Other_exception x) = [Other_exception x, Exception, BaseException]"
| "mro c = [c, MediaLLMError, Exception, BaseException]"

definition isinstance :: "exc_class \<Rightarrow> exc_class \<Rightarrow> bool" where
  "isinstance raised cls = (cls \<in> set (mro raised))"

text \<open>The \<open>except\<close> clauses of \<open>main\<close> in their order, each with the status it exits with.\<close>

definition main_handlers :: "(exc_class \<times> nat) list" where
  "main_handlers =
     [(KeyboardInterrupt, 130), (SecurityError, 2), (ValidationError, 3), (ConfigError, 4),
      (TranslationError, 5), (ConstructionError, 6), (ExecError, 7), (MediaLLMError, 1),
      (OSError, 1), (Exception, 1)]"

text \<open>
  What the \<open>try\<close> body (\<open>_validate_environment()\<close>, then \<open>terminal_app()\<close>) does: it
  returns or raises. \<open>main\<close> then returns, leaves by \<open>sys.exit(status)\<close>, or lets the
  exception through.
\<close>

datatype body_result = Body_returns | Body_raises exc_class

datatype main_result = Main_returns | Sys_exit nat | Propagates exc_class

fun dispatch :: "(exc_class \<times> nat) list \<Rightarrow> exc_class \<Rightarrow> main_result" where
  "dispatch [] raised = Propagates raised"
| "dispatch ((cls, status) # clauses) raised =
     (if isinstance raised cls then Sys_exit status else dispatch clauses raised)"

fun main :: "body_result \<Rightarrow> main_result" where
  "main Body_returns = Main_returns"
| "main (Body_raises raised) = dispatch main_handlers raised"

section \<open>Running the commands (\<open>processing/command_executor.py\<close>)\<close>

definition DEFAULT_SUBPROCESS_TIMEOUT :: nat where
  "DEFAULT_SUBPROCESS_TIMEOUT = 300"

definition extract_output_path :: "string list \<Rightarrow> string option" where
  "extract_output_path cmd = (if length cmd < 2 then None else Some (last cmd))"

definition check_overwrite_protection :: "string list list \<Rightarrow> bool \<Rightarrow> bool" where
  "check_overwrite_protection commands assume_yes = True"

text \<open>
  \<open>detect_overwrites\<close>; \<open>path_exists p\<close> is \<open>Path(p).exists()\<close>. A \<open>Path\<close> object is
  always true, so \<open>extract_output_path(cmd) and ...exists()\<close> is the second operand
  whenever there is a path.
\<close>

definition detect_overwrites :: "(string \<Rightarrow> bool) \<Rightarrow> string list list \<Rightarrow> bool" where
  "detect_overwrites path_exists commands =
     list_ex (\<lambda>cmd. case extract_output_path cmd of None \<Rightarrow> False | Some p \<Rightarrow> path_exists p)
       commands"

text \<open>
  The machine the executor runs on: \<open>on_path exe\<close> tells whether \<open>shutil.which(exe)\<close>
  finds the program, \<open>run_process cmd timeout\<close> is what
  \<open>subprocess.run(cmd, check=True, timeout=timeout, capture_output=True)\<close> does.
\<close>

datatype process_result =
    Exited int string
  | Timed_out
  | Failed_to_start

record machine =
  on_path :: "string \<Rightarrow> bool"
  run_process :: "string list \<Rightarrow> nat \<Rightarrow> process_result"

text \<open>What the executor prints and does, in order.\<close>

datatype exec_event =
    Cancelled_file_conflicts
  | Starting nat
  | Executing nat nat
  | Ran "string list"
  | Completed_command nat
  | Failed_command nat
  | Summary nat nat

text \<open>
  The ways a call ends: a returned value, a raised \<open>ExecError\<close> with its message, or
  another exception.
\<close>

datatype 'a ended = Returned 'a | Raised_ExecError string | Raised_other string

text \<open>
  \<open>_validate_command\<close>: the \<open>ExecError\<close> it raises, if any. The messages of the
  executor are shortened to their first sentence.
\<close>

definition validate_command :: "machine \<Rightarrow> string list \<Rightarrow> string option" where
  "validate_command m cmd =
     (case cmd of
        [] \<Rightarrow> Some ''Empty command received for execution.''
      | exe0 # _ \<Rightarrow>
          if \<not> on_path m exe0 then Some (''Executable not found: '' @ exe0)
          else if \<not> is_command_secure cmd then Some ''Command failed security validation.''
          else None)"

text \<open>
  \<open>_execute_single_command\<close> with the default timeout. Under \<open>check=True\<close> a non-zero
  exit status raises \<open>CalledProcessError\<close>, which becomes an \<open>ExecError\<close>, as does a
  timeout; a program that cannot be started raises an \<open>OSError\<close> that is not caught here.
\<close>

definition execute_single_command ::
  "machine \<Rightarrow> string list \<Rightarrow> nat \<Rightarrow> nat \<Rightarrow> exec_event list \<times> unit ended" where
  "execute_single_command m cmd cmd_num total_cmds =
     (case validate_command m cmd of
        Some msg \<Rightarrow> ([], Raised_ExecError msg)
      | None \<Rightarrow>
          (case run_process m cmd DEFAULT_SUBPROCESS_TIMEOUT of
             Exited rc stderr \<Rightarrow>
               if rc = 0
               then ([Executing cmd_num total_cmds, Ran cmd, Completed_command cmd_num], Returned ())
               else ([Executing cmd_num total_cmds, Ran cmd],
                     Raised_ExecError (''ffmpeg execution failed. '' @ take 500 stderr))
           | Timed_out \<Rightarrow>
               ([Executing cmd_num total_cmds, Ran cmd],
                Raised_ExecError ''FFmpeg command timed out.'')
           | Failed_to_start \<Rightarrow>
               ([Executing cmd_num total_cmds, Ran cmd], Raised_other ''OSError'')))"

text \<open>
  The \<open>for i, cmd in enumerate(commands, 1)\<close> loop of \<open>_execute_commands\<close>: \<open>i\<close> is the
  number of the next command, \<open>successful\<close> the count so far. An \<open>ExecError\<close> is
  reported and raised again.
\<close>

fun run_all ::
  "machine \<Rightarrow> nat \<Rightarrow> nat \<Rightarrow> nat \<Rightarrow> string list list \<Rightarrow> exec_event list \<times> nat ended" where
  "run_all m total_cmds i successful [] = ([], Returned successful)"
| "run_all m total_cmds i successful (cmd # rest) =
     (case execute_single_command m cmd i total_cmds of
        (evs, Returned u) \<Rightarrow>
          (case run_all m total_cmds (i + 1) (successful + 1) rest of
             (evs', r) \<Rightarrow> (evs @ evs', r))
      | (evs, Raised_ExecError msg) \<Rightarrow> (evs @ [Failed_command i], Raised_ExecError msg)
      | (evs, Raised_other x) \<Rightarrow> (evs, Raised_other x))"

definition execute_commands ::
  "machine \<Rightarrow> string list list \<Rightarrow> bool \<Rightarrow> exec_event list \<times> int ended" where
  "execute_commands m commands assume_yes =
     (if \<not> check_overwrite_protection commands assume_yes
      then ([Cancelled_file_conflicts], Returned 1)
      else
        (let total_commands = length commands
         in case run_all m total_commands 1 0 commands of
              (evs, Returned successful_commands) \<Rightarrow>
                (Starting total_commands # evs @ [Summary successful_commands total_commands],
                 Returned (if successful_commands = total_commands then 0 else 1))
            | (evs, Raised_ExecError msg) \<Rightarrow> (Starting total_commands # evs, Raised_ExecError msg)
            | (evs, Raised_other x) \<Rightarrow> (Starting total_commands # evs, Raised_other x)))"

section \<open>Validation and retry (\<open>processing/command_retry.py\<close>)\<close>

definition MAX_RETRY_ATTEMPTS :: nat where
  "MAX_RETRY_ATTEMPTS = 3"

text \<open>
  \<open>_check_input_files\<close>: the paths after \<open>-i\<close> that are neither a pipe, a URL nor an
  option and do not exist. The loop skips the path it has just read (\<open>i += 2\<close>).
\<close>

definition pseudo_input :: "string \<Rightarrow> bool" where
  "pseudo_input p = list_ex (startswith p) [''pipe:'', ''http://'', ''https://'', ''-'']"

fun missing_files :: "(string \<Rightarrow> bool) \<Rightarrow> string list \<Rightarrow> string list" where
  "missing_files path_exists [] = []"
| "missing_files path_exists [a] = []"
| "missing_files path_exists (a # b # rest) =
     (if a = ''-i''
      then (if \<not> pseudo_input b \<and> \<not> path_exists b then [b] else [])
             @ missing_files path_exists rest
      else missing_files path_exists (b # rest))"

definition check_input_files :: "(string \<Rightarrow> bool) \<Rightarrow> string list \<Rightarrow> string" where
  "check_input_files path_exists cmd =
     (let missing = missing_files path_exists cmd
      in if missing \<noteq> [] then ''Input file(s) not found: '' @ join '', '' missing else [])"

text \<open>
  \<open>_build_quick_validation_cmd\<close>: for an \<open>ffmpeg\<close> command, \<open>-t 0.001\<close> is inserted after
  the path that follows the last \<open>-i\<close>, when there is one.
\<close>

definition last_input_idx :: "string list \<Rightarrow> nat option" where
  "last_input_idx cmd =
     (case filter (\<lambda>i. cmd ! i = ''-i'') [0..<length cmd] of
        [] \<Rightarrow> None
      | i # others \<Rightarrow> Some (last (i # others) + 1))"

definition build_quick_validation_cmd :: "string list \<Rightarrow> string list option" where
  "build_quick_validation_cmd cmd =
     (case cmd of
        [] \<Rightarrow> None
      | exe0 # _ \<Rightarrow>
          if exe0 \<noteq> ''ffmpeg'' then None
          else
            (case last_input_idx cmd of
               None \<Rightarrow> Some cmd
             | Some k \<Rightarrow>
                 if k < length cmd
                 then Some (take (k + 1) cmd @ [''-t'', ''0.001''] @ drop (k + 1) cmd)
                 else Some cmd))"

text \<open>
  How the quick check ended: the process exited with a status and this error output, or
  \<open>subprocess.run\<close> raised \<open>TimeoutExpired\<close>, \<open>FileNotFoundError\<close> or another exception.
\<close>

datatype quick_result =
    Quick_exited int string
  | Quick_timeout
  | Quick_not_found
  | Quick_other

text \<open>\<open>stderr.split("\n")\<close> and the first line kept for the message.\<close>

fun split_lines :: "string \<Rightarrow> string list" where
  "split_lines [] = [[]]"
| "split_lines (c # s) =
     (if c = CHR 0x0A then [] # split_lines s
      else (case split_lines s of
              [] \<Rightarrow> [[c]]
            | l # ls \<Rightarrow> (c # l) # ls))"

definition validation_error_msg :: "string \<Rightarrow> string" where
  "validation_error_msg stderr =
     (case filter (\<lambda>line. strip line \<noteq> [] \<and> \<not> startswith line ''['') (split_lines stderr) of
        [] \<Rightarrow> take 200 stderr
      | line # _ \<Rightarrow> line)"

text \<open>
  \<open>validate_ffmpeg_command\<close>, on a system where \<open>path_exists\<close> tells which paths exist
  and \<open>quick_check\<close> runs the quick validation command. The copy of the command that the
  source extends with \<open>-v error\<close> is never used and is left out.
\<close>

definition validate_ffmpeg_command ::
  "(string \<Rightarrow> bool) \<Rightarrow> (string list \<Rightarrow> quick_result) \<Rightarrow> string list \<Rightarrow> bool \<times> string" where
  "validate_ffmpeg_command path_exists quick_check cmd =
     (case cmd of
        [] \<Rightarrow> (False, ''Command must start with ffmpeg or ffprobe'')
      | exe0 # _ \<Rightarrow>
          if exe0 \<notin> set [''ffmpeg'', ''ffprobe'']
          then (False, ''Command must start with ffmpeg or ffprobe'')
          else
            (let input_check_errors = check_input_files path_exists cmd
             in if input_check_errors \<noteq> [] then (False, input_check_errors)
                else
                  (case build_quick_validation_cmd cmd of
                     None \<Rightarrow> (True, [])
                   | Some quick_check_cmd \<Rightarrow>
                       (case quick_check quick_check_cmd of
                          Quick_exited rc stderr \<Rightarrow>
                            if rc \<noteq> 0
                            then (False, ''FFmpeg validation failed: '' @ validation_error_msg stderr)
                            else (True, [])
                        | Quick_timeout \<Rightarrow> (True, [])
                        | Quick_not_found \<Rightarrow>
                            (False, ''FFmpeg executable not found. Please install FFmpeg.'')
                        | Quick_other \<Rightarrow> (True, [])))))"

text \<open>
  The world around \<open>execute_with_retry\<close>, which may answer differently in each attempt:
  the file system and the quick check during attempt \<open>n\<close>, the \<open>executor_func\<close> passed
  in, and \<open>_regenerate_commands\<close>, which asks the language model with the original prompt
  and the error message and returns new commands or \<open>None\<close>. The plan that the source
  carries along with the commands is never read and is left out.
\<close>

datatype exec_result = Exit_code int | Exec_error string | Other_error string

record world =
  path_exists_at :: "nat \<Rightarrow> string \<Rightarrow> bool"
  quick_check_at :: "nat \<Rightarrow> string list \<Rightarrow> quick_result"
  executor_func :: "nat \<Rightarrow> string list list \<Rightarrow> exec_result"
  regenerate_commands :: "nat \<Rightarrow> string \<Rightarrow> string \<Rightarrow> string list list option"

text \<open>What happens during the attempts, each event with the number of its attempt.\<close>

datatype retry_event =
    Validated nat "string list" bool
  | Regenerated nat string
  | Executed nat "string list list"

fun attempt_of :: "retry_event \<Rightarrow> nat" where
  "attempt_of (Validated n cmd ok) = n"
| "attempt_of (Regenerated n msg) = n"
| "attempt_of (Executed n cmds) = n"

fun is_executed :: "retry_event \<Rightarrow> bool" where
  "is_executed (Executed n cmds) = True"
| "is_executed e = False"

text \<open>
  The inner \<open>for i, cmd in enumerate(current_commands)\<close> loop. It ends by running through
  all commands (the \<open>else\<close> branch of the loop follows), by \<open>break\<close> with regenerated
  commands, or by \<open>return 1, commands\<close> when regeneration gives nothing. The \<open>break\<close> and
  the \<open>return\<close> are inside \<open>if attempt < MAX_RETRY_ATTEMPTS\<close>: otherwise the loop goes
  on to the next command.
\<close>

datatype scan = All_scanned | Broke "string list list" | Gave_up

fun validate_batch ::
  "world \<Rightarrow> string \<Rightarrow> nat \<Rightarrow> string list list \<Rightarrow> retry_event list \<times> scan" where
  "validate_batch w prompt attempt [] = ([], All_scanned)"
| "validate_batch w prompt attempt (cmd # rest) =
     (case validate_ffmpeg_command (path_exists_at w attempt) (quick_check_at w attempt) cmd of
        (is_valid, error_msg) \<Rightarrow>
          if is_valid
          then (case validate_batch w prompt attempt rest of
                  (evs, r) \<Rightarrow> (Validated attempt cmd True # evs, r))
          else if attempt < MAX_RETRY_ATTEMPTS
          then (case regenerate_commands w attempt prompt error_msg of
                  None \<Rightarrow> ([Validated attempt cmd False, Regenerated attempt error_msg], Gave_up)
                | Some new_commands \<Rightarrow>
                    ([Validated attempt cmd False, Regenerated attempt error_msg],
                     Broke new_commands))
          else (case validate_batch w prompt attempt rest of
                  (evs, r) \<Rightarrow> (Validated attempt cmd False # evs, r)))"

text \<open>
  The outer \<open>for attempt in range(1, MAX_RETRY_ATTEMPTS + 1)\<close> loop, over the attempt
  numbers still to come; \<open>commands\<close> are the commands the call was given,
  \<open>current_commands\<close> those of this attempt.
\<close>

fun attempts ::
  "world \<Rightarrow> string \<Rightarrow> string list list \<Rightarrow> nat list \<Rightarrow> string list list
   \<Rightarrow> retry_event list \<times> (int \<times> string list list) ended" where
  "attempts w prompt commands [] current_commands = ([], Returned (1, current_commands))"
| "attempts w prompt commands (attempt # later) current_commands =
     (case validate_batch w prompt attempt current_commands of
        (evs, Gave_up) \<Rightarrow> (evs, Returned (1, commands))
      | (evs, Broke new_commands) \<Rightarrow>
          (case attempts w prompt commands later new_commands of
             (evs', r) \<Rightarrow> (evs @ evs', r))
      | (evs, All_scanned) \<Rightarrow>
          (case executor_func w attempt current_commands of
             Exit_code exit_code \<Rightarrow>
               (evs @ [Executed attempt current_commands], Returned (exit_code, current_commands))
           | Other_error x \<Rightarrow> (evs @ [Executed attempt current_commands], Raised_other x)
           | Exec_error last_error \<Rightarrow>
               if attempt < MAX_RETRY_ATTEMPTS
               then (case regenerate_commands w attempt prompt last_error of
                       None \<Rightarrow>
                         (evs @ [Executed attempt current_commands, Regenerated attempt last_error],
                          Raised_ExecError last_error)
                     | Some new_commands \<Rightarrow>
                         (case attempts w prompt commands later new_commands of
                            (evs', r) \<Rightarrow>
                              (evs @ [Executed attempt current_commands,
                                      Regenerated attempt last_error] @ evs', r)))
               else (evs @ [Executed attempt current_commands], Raised_ExecError last_error)))"

definition execute_with_retry ::
  "world \<Rightarrow> string \<Rightarrow> string list list
   \<Rightarrow> retry_event list \<times> (int \<times> string list list) ended" where
  "execute_with_retry w original_prompt commands =
     attempts w original_prompt commands [1..<MAX_RETRY_ATTEMPTS + 1] commands"

section \<open>Repairing the parsed response (\<open>core/json_repair.py\<close>)\<close>

text \<open>
  The dictionary being repaired is a map from field names to JSON values; the workspace
  maps each of its keys (\<open>videos\<close>, \<open>audios\<close>, \<open>images\<close>, \<open>subtitle_files\<close>) to its
  list of paths.
\<close>

type_synonym dict = "string \<rightharpoonup> json"

type_synonym workspace = "string \<Rightarrow> string list"

text \<open>\<open>d.get(key)\<close> taken as a truth value: a missing key gives \<open>None\<close>, which is false.\<close>

definition get_truthy :: "dict \<Rightarrow> string \<Rightarrow> bool" where
  "get_truthy d key = (case d key of None \<Rightarrow> False | Some v \<Rightarrow> truthy v)"

text \<open>
  \<open>sanitize_path_values\<close>. \<open>clean\<close> stands for \<open>_clean_path_string\<close> with the workspace
  given: a function from strings to strings, whose rewriting of the path is not looked
  into here.
\<close>

definition clean_field :: "(string \<Rightarrow> string) \<Rightarrow> string \<Rightarrow> dict \<Rightarrow> dict" where
  "clean_field clean field data =
     (case data field of
        Some (JStr v) \<Rightarrow>
          if v \<noteq> [] then (if clean v \<noteq> v then data(field \<mapsto> JStr (clean v)) else data)
          else data
      | _ \<Rightarrow> data)"

fun clean_input :: "(string \<Rightarrow> string) \<Rightarrow> json \<Rightarrow> json" where
  "clean_input clean (JStr s) = JStr (clean s)"
| "clean_input clean v = v"

definition sanitize_path_values :: "(string \<Rightarrow> string) \<Rightarrow> dict \<Rightarrow> dict" where
  "sanitize_path_values clean data =
     (let data1 = fold (clean_field clean) [''output'', ''subtitle_path'', ''overlay_path''] data
      in case data1 ''inputs'' of
           Some (JArr inputs) \<Rightarrow> data1(''inputs'' \<mapsto> JArr (map (clean_input clean) inputs))
         | _ \<Rightarrow> data1)"

text \<open>
  The first loop over the list fields: a missing field or \<open>None\<close> becomes the empty list,
  a list stays, any other value becomes the list of that value when it is true and the
  empty list otherwise.
\<close>

definition init_list_field :: "string \<Rightarrow> dict \<Rightarrow> dict" where
  "init_list_field field repaired =
     (case repaired field of
        None \<Rightarrow> repaired(field \<mapsto> JArr [])
      | Some v \<Rightarrow>
          if v = JNull then repaired(field \<mapsto> JArr [])
          else if \<not> is_list v
          then repaired(field \<mapsto> (if truthy v then JArr [v] else JArr []))
          else repaired)"

text \<open>
  The second loop keeps the items with \<open>item and str(item).strip()\<close>: the item is true
  and its text is not blank. Only the text of a string can be blank.
\<close>

fun str_blank :: "json \<Rightarrow> bool" where
  "str_blank (JStr s) = (strip s = [])"
| "str_blank v = False"

definition kept_item :: "json \<Rightarrow> bool" where
  "kept_item item = (truthy item \<and> \<not> str_blank item)"

definition clean_list_field :: "string \<Rightarrow> dict \<Rightarrow> dict" where
  "clean_list_field field repaired =
     (case repaired field of
        Some (JArr items) \<Rightarrow> repaired(field \<mapsto> JArr (filter kept_item items))
      | _ \<Rightarrow> repaired)"

definition actions_needing_inputs :: "string list" where
  "actions_needing_inputs =
     [''convert'', ''extract_audio'', ''compress'', ''format_convert'', ''trim'', ''segment'',
      ''thumbnail'', ''frames'', ''extract_frames'', ''burn_subtitles'', ''extract_subtitles'',
      ''remove_audio'', ''overlay'']"

definition action_needs_inputs :: "dict \<Rightarrow> bool" where
  "action_needs_inputs repaired =
     (case repaired ''action'' of
        Some (JStr a) \<Rightarrow> a \<in> set actions_needing_inputs
      | _ \<Rightarrow> False)"

text \<open>
  Modelled from the spec: \<open>core/action_inference.py\<close> is missing, and with it the four
  functions that \<open>repair_json_for_schema\<close> imports and calls. They are taken as they are
  called. \<open>infer_action_from_query(user_query)\<close> returns the action of a request; the
  other three receive the dictionary \<open>repaired\<close>, which they change in place, and are
  functions from the dictionary they receive to the dictionary they leave. Nothing is
  fixed about them here; what section 4.2 of the spec says of them is the predicate
  \<open>helpers_as_specified\<close> below.
\<close>

record helpers =
  infer_action_from_query :: "string \<Rightarrow> string"
  infer_inputs_from_query :: "dict \<Rightarrow> string \<Rightarrow> workspace \<Rightarrow> dict"
  infer_format_and_codec :: "dict \<Rightarrow> string \<Rightarrow> dict"
  fix_action_validation_issues :: "dict \<Rightarrow> string \<Rightarrow> dict"

text \<open>\<open>if data is None: data = {}\<close>.\<close>

definition or_empty :: "dict option \<Rightarrow> dict" where
  "or_empty data = (case data of None \<Rightarrow> Map.empty | Some d \<Rightarrow> d)"

text \<open>
  \<open>repair_json_for_schema\<close> in two parts, step by step as in the source;
  \<open>clean_path_string\<close> is \<open>_clean_path_string\<close>. The first part is the dictionary
  \<open>repaired\<close> as the function's own statements leave it, up to the clean-up of the lists:
  the copy of the input with its paths sanitized, the action inferred when it is missing
  or false, the three list fields initialised, the blank items dropped.
\<close>

definition prepared_response ::
  "helpers \<Rightarrow> (workspace \<Rightarrow> string \<Rightarrow> string) \<Rightarrow> dict option \<Rightarrow> string \<Rightarrow> workspace \<Rightarrow> dict" where
  "prepared_response h clean_path_string data user_query ws =
     (let r1 = sanitize_path_values (clean_path_string ws) (or_empty data);
          r2 = (if get_truthy r1 ''action'' then r1
                else r1(''action'' \<mapsto> JStr (infer_action_from_query h user_query)));
          r3 = fold init_list_field [''inputs'', ''filters'', ''extra_flags''] r2
      in fold clean_list_field [''filters'', ''extra_flags''] r3)"

text \<open>
  The second part hands that dictionary to the helpers: to \<open>infer_inputs_from_query\<close>
  when \<open>inputs\<close> is empty and the action is one of \<open>actions_needing_inputs\<close>, then
  always to \<open>infer_format_and_codec\<close> and to \<open>fix_action_validation_issues\<close>. What they
  leave is returned.
\<close>

definition repair_json_for_schema ::
  "helpers \<Rightarrow> (workspace \<Rightarrow> string \<Rightarrow> string) \<Rightarrow> dict option \<Rightarrow> string \<Rightarrow> workspace \<Rightarrow> dict" where
  "repair_json_for_schema h clean_path_string data user_query ws =
     (let r4 = prepared_response h clean_path_string data user_query ws;
          r5 = (if \<not> get_truthy r4 ''inputs'' \<and> action_needs_inputs r4
                then infer_inputs_from_query h r4 user_query ws
                else r4);
          r6 = infer_format_and_codec h r5 user_query
      in fix_action_validation_issues h r6 user_query)"

text \<open>
  The list that the first loop leaves in a field, as a function of the value it finds
  there.
\<close>

fun as_list :: "json option \<Rightarrow> json list" where
  "as_list None = []"
| "as_list (Some JNull) = []"
| "as_list (Some (JArr xs)) = xs"
| "as_list (Some v) = (if truthy v then [v] else [])"

text \<open>
  Modelled from the spec: the invariants of a repaired response (section 3,
  \<open>StructuredIntent\<close>, and the property of section 8). \<open>action\<close> is a non-empty member of
  the enumeration of actions; \<open>inputs\<close>, \<open>filters\<close> and \<open>extra_flags\<close> are lists, and no
  item of \<open>filters\<close> and \<open>extra_flags\<close> is false or blank.
\<close>

definition member_action :: "string list \<Rightarrow> dict \<Rightarrow> bool" where
  "member_action actions d =
     (case d ''action'' of
        Some (JStr a) \<Rightarrow> a \<noteq> [] \<and> a \<in> set actions
      | _ \<Rightarrow> False)"

definition list_field :: "dict \<Rightarrow> string \<Rightarrow> bool" where
  "list_field d field = (case d field of Some (JArr xs) \<Rightarrow> True | _ \<Rightarrow> False)"

definition clean_list :: "dict \<Rightarrow> string \<Rightarrow> bool" where
  "clean_list d field = (case d field of Some (JArr xs) \<Rightarrow> list_all kept_item xs | _ \<Rightarrow> False)"

definition schema_complete :: "string list \<Rightarrow> dict \<Rightarrow> bool" where
  "schema_complete actions d =
     (member_action actions d \<and> list_field d ''inputs''
      \<and> clean_list d ''filters'' \<and> clean_list d ''extra_flags'')"

text \<open>
  Modelled from the spec: what section 4.2 says of the missing helpers. Step 3: the action
  is inferred by a "closed mapping of keyword sets to actions" with "a generic convert
  action" as the fallback, so the inferred action is a member of the enumeration. Steps 5
  to 7 come under "no step may leave a previously-repaired invariant violated": a
  dictionary that has those invariants has them after the step.
\<close>

definition helpers_as_specified :: "string list \<Rightarrow> helpers \<Rightarrow> bool" where
  "helpers_as_specified actions h =
     ((\<forall>q. infer_action_from_query h q \<noteq> [] \<and> infer_action_from_query h q \<in> set actions)
      \<and> (\<forall>d q ws. schema_complete actions d
                   \<longrightarrow> schema_complete actions (infer_inputs_from_query h d q ws))
      \<and> (\<forall>d q. schema_complete actions d
                \<longrightarrow> schema_complete actions (infer_format_and_codec h d q))
      \<and> (\<forall>d q. schema_complete actions d
                \<longrightarrow> schema_complete actions (fix_action_validation_issues h d q)))"

section \<open>Two worlds for the retry loop\<close>

text \<open>
  In the first every execution raises an \<open>ExecError\<close> and every regeneration returns the
  same plan; in the second the input file is missing in every attempt, the language model
  returns the same plan, and the executor reports success.
\<close>

definition failing_world :: world where
  "failing_world =
     \<lparr>path_exists_at = (\<lambda>n p. True),
      quick_check_at = (\<lambda>n cmd. Quick_exited 0 []),
      executor_func = (\<lambda>n cmds. Exec_error ''Unknown encoder''),
      regenerate_commands = (\<lambda>n prompt msg. Some [[''ffmpeg'', ''-i'', ''in.mp4'', ''out.mp4'']])\<rparr>"

definition missing_input_world :: world where
  "missing_input_world =
     \<lparr>path_exists_at = (\<lambda>n p. False),
      quick_check_at = (\<lambda>n cmd. Quick_exited 0 []),
      executor_func = (\<lambda>n cmds. Exit_code 0),
      regenerate_commands = (\<lambda>n prompt msg. Some [[''ffmpeg'', ''-i'', ''missing.mp4'', ''out.mp4'']])\<rparr>"

section \<open>The action enumeration and example helpers for the repair\<close>

text \<open>
  Modelled from the spec: \<open>utils/data_models.py\<close>, which declares the enumeration of
  actions, is missing. These are the members that section 3 of the spec names; its list
  ends with an ellipsis, so the theorems below hold for any enumeration and use this one
  only as an instance.
\<close>

definition spec_actions :: "string list" where
  "spec_actions =
     [''convert'', ''compress'', ''extract_audio'', ''trim'', ''segment'', ''thumbnail'',
      ''extract_frames'', ''burn_subtitles'', ''extract_subtitles'', ''remove_audio'',
      ''overlay'', ''format_convert'', ''merge'']"

text \<open>\<open>needle in text\<close> for strings.\<close>

fun contains :: "string \<Rightarrow> string \<Rightarrow> bool" where
  "contains [] needle = (needle = [])"
| "contains (c # s) needle = (if startswith (c # s) needle then True else contains s needle)"

text \<open>
  Modelled from the spec: one instance of the helpers, of the kind section 4.2
  describes, on which the function is run: the action is \<open>compress\<close> for a request with
  the word \<open>smaller\<close> and \<open>convert\<close> otherwise, the inputs are the videos of the
  workspace that the request names, the format is \<open>gif\<close> for a request that names it when
  none is set, and an \<open>extract_audio\<close> action with no format gets \<open>mp3\<close>.
\<close>

definition example_helpers :: helpers where
  "example_helpers =
     \<lparr>infer_action_from_query =
        (\<lambda>user_query. if contains user_query ''smaller'' then ''compress'' else ''convert''),
      infer_inputs_from_query =
        (\<lambda>repaired user_query ws.
           repaired(''inputs'' \<mapsto> JArr (map JStr (filter (contains user_query) (ws ''videos''))))),
      infer_format_and_codec =
        (\<lambda>repaired user_query.
           if \<not> get_truthy repaired ''format'' \<and> contains user_query ''gif''
           then repaired(''format'' \<mapsto> JStr ''gif'') else repaired),
      fix_action_validation_issues =
        (\<lambda>repaired user_query.
           if repaired ''action'' = Some (JStr ''extract_audio'') \<and> \<not> get_truthy repaired ''format''
           then repaired(''format'' \<mapsto> JStr ''mp3'') else repaired)\<rparr>"

definition example_workspace :: workspace where
  "example_workspace = (\<lambda>key. if key = ''videos'' then [''video.mp4''] else [])"

text \<open>
  Two responses: one with no action, a scalar, a \<open>null\<close> and blank flags; one whose
  action is no member of the enumeration, with a \<open>null\<close> list field.
\<close>

definition example_response :: dict where
  "example_response =
     [''filters'' \<mapsto> JStr ''scale=1280:720'',
      ''extra_flags'' \<mapsto> JArr [JStr ''  '', JStr ''-y'', JStr []],
      ''inputs'' \<mapsto> JNull]"

definition unknown_action_response :: dict where
  "unknown_action_response = [''action'' \<mapsto> JStr ''explode'', ''filters'' \<mapsto> JNull]"

section \<open>Character classes on the printable ASCII characters\<close>

text \<open>
  The classes computed once for each printable ASCII character, so that a search over a
  concrete text rewrites with one fact per character.
\<close>

lemma word_chars:
  "list_all is_word ''abcdefghijklmnopqrstuvwxyzABCDEFGHIJKLMNOPQRSTUVWXYZ0123456789_''"
  by (simp add: is_word_def)

lemma nonword_chars:
  "list_all (Not \<circ> is_word) '' !#$%&()*+,-./:;<=>?@[]^`{|}~''"
  by (simp add: is_word_def)

lemma nonspace_chars:
  "list_all (Not \<circ> is_space)
     ''abcdefghijklmnopqrstuvwxyzABCDEFGHIJKLMNOPQRSTUVWXYZ0123456789_!#$%&()*+,-./:;<=>?@[]^`{|}~''"
  by (simp add: is_space_def)

lemma space_chars: "list_all is_space [CHR '' '', CHR 0x09, CHR 0x0A, CHR 0x0D]"
  by (simp add: is_space_def)

lemma lower_upper_chars:
  "map ascii_lower ''ABCDEFGHIJKLMNOPQRSTUVWXYZ'' = ''abcdefghijklmnopqrstuvwxyz''"
  by (simp add: ascii_lower_def)

lemma lower_other_chars:
  "list_all (\<lambda>c. ascii_lower c = c)
     ''abcdefghijklmnopqrstuvwxyz0123456789_ !#$%&()*+,-./:;<=>?@[]^`{|}~''"
  by (simp add: ascii_lower_def)

lemmas char_class_simps =
  word_chars [simplified]
  nonword_chars [simplified]
  nonspace_chars [simplified]
  space_chars [simplified]
  lower_upper_chars [simplified]
  lower_other_chars [simplified]

section \<open>Properties of the command security validator\<close>

subsection \<open>Joined arguments and searches\<close>

lemma join_contains: "a \<in> set xs \<Longrightarrow> \<exists>x y. join sep xs = x @ a @ y"
proof (induction sep xs rule: join.induct)
  case (1 sep)
  then show ?case by simp
next
  case (2 sep x)
  then have "join sep [x] = [] @ a @ []" by simp
  then show ?case by blast
next
  case (3 sep x y ys)
  show ?case
  proof (cases "a = x")
    case True
    then have "join sep (x # y # ys) = [] @ a @ (sep @ join sep (y # ys))" by simp
    then show ?thesis by blast
  next
    case False
    with 3 obtain u v where "join sep (y # ys) = u @ a @ v" by auto
    then have "join sep (x # y # ys) = (x @ sep @ u) @ a @ v" by simp
    then show ?thesis by blast
  qed
qed

lemma search_class: "c \<in> set s \<Longrightarrow> p c \<Longrightarrow> rx_search_from [One p] w s \<noteq> None"
  by (induction s arbitrary: w) (auto split: option.splits)

lemma search_pair:
  "p a \<Longrightarrow> q b \<Longrightarrow> rx_search_from [One p, One q] w (x @ a # b # y) \<noteq> None"
  by (induction x arbitrary: w) (auto split: option.splits)

lemma search_needs_first:
  "\<forall>c \<in> set s. \<not> p c \<Longrightarrow> rx_search_from (One p # r) w s = None"
  by (induction s arbitrary: w) auto

lemma found_char: "c \<in> set cs \<Longrightarrow> c \<in> set s \<Longrightarrow> found [One (one_of cs)] s"
  by (simp add: found_def re_search_def search_class one_of_def)

lemma found_lit2: "found (lit [a, b]) (x @ a # b # y)"
  by (simp add: found_def re_search_def lit_def search_pair ch_def)

subsection \<open>Each way of rejecting a command\<close>

lemma insecure_pattern:
  "pat \<in> set DANGEROUS_PATTERNS \<Longrightarrow> found pat (join '' '' (non_filter_args command))
   \<Longrightarrow> \<not> is_command_secure command"
  by (auto simp: is_command_secure_def list_ex_iff Let_def split: list.splits)

lemma insecure_semicolon:
  "arg \<in> set (non_filter_args command) \<Longrightarrow> CHR '';'' \<in> set arg \<Longrightarrow> \<not> is_command_secure command"
  by (auto simp: is_command_secure_def list_ex_iff Let_def split: list.splits)

lemma insecure_executable:
  "command = [] \<or> (\<not> endswith (hd command) ''ffmpeg'' \<and> \<not> endswith (hd command) ''ffprobe'')
   \<Longrightarrow> \<not> is_command_secure command"
  by (auto simp: is_command_secure_def VALID_EXECUTABLES_def split: list.splits)

lemma pat_meta: "[One (one_of ''&|`'')] \<in> set DANGEROUS_PATTERNS"
  by (simp add: DANGEROUS_PATTERNS_def)

lemma pat_subst: "lit ''$('' \<in> set DANGEROUS_PATTERNS"
  by (simp add: DANGEROUS_PATTERNS_def)

lemma pat_var: "lit ''${'' \<in> set DANGEROUS_PATTERNS"
  by (simp add: DANGEROUS_PATTERNS_def)

lemma insecure_metachar:
  assumes "arg \<in> set (non_filter_args command)" and "c \<in> set ''&|`''" and "c \<in> set arg"
  shows "\<not> is_command_secure command"
proof -
  from assms(1) obtain x y where j: "join '' '' (non_filter_args command) = x @ arg @ y"
    using join_contains by blast
  from assms(3) have "c \<in> set (join '' '' (non_filter_args command))" by (simp add: j)
  with assms(2) have "found [One (one_of ''&|`'')] (join '' '' (non_filter_args command))"
    by (rule found_char)
  with pat_meta show ?thesis by (rule insecure_pattern)
qed

lemma insecure_dollar:
  assumes "arg \<in> set (non_filter_args command)" and "b = CHR ''('' \<or> b = CHR ''{''"
    and "arg = u @ CHR ''$'' # b # v"
  shows "\<not> is_command_secure command"
proof -
  from assms(1) obtain x y where "join '' '' (non_filter_args command) = x @ arg @ y"
    using join_contains by blast
  with assms(3) have j: "join '' '' (non_filter_args command) = (x @ u) @ CHR ''$'' # b # (v @ y)"
    by simp
  have f: "found (lit [CHR ''$'', b]) (join '' '' (non_filter_args command))"
    unfolding j by (rule found_lit2)
  from assms(2) have "lit [CHR ''$'', b] \<in> set DANGEROUS_PATTERNS"
    using pat_subst pat_var by auto
  then show ?thesis using f by (rule insecure_pattern)
qed

text \<open>The facts that evaluate the validator on a concrete command.\<close>

lemmas secure_eval =
  is_command_secure_def endswith_def VALID_EXECUTABLES_def FILTER_FLAGS_def
  DANGEROUS_PATTERNS_def found_def re_search_def lit_def lit_i_def ch_def chi_def
  one_of_def one_of_i_def char_class_simps

lemma baseline_secure:
  "is_command_secure [''ffmpeg'', ''-i'', ''input.mp4'', ''-c:v'', ''libx264'', ''output.mp4'']"
  by (simp add: secure_eval)

text \<open>
  Claim C1. \<open>_is_command_secure\<close> returns \<open>False\<close> for the empty list and for every list
  whose first element ends neither with \<open>ffmpeg\<close> nor with \<open>ffprobe\<close>; it returns
  \<open>False\<close> whenever an argument that the scan keeps (one it does not skip as a filter flag
  or as the value of one) contains a semicolon, one of the characters \<open>&\<close>, \<open>|\<close>,
  backtick, or one of the two-character sequences \<open>$(\<close> and \<open>${\<close>; and it returns
  \<open>True\<close> for the baseline command
  \<open>["ffmpeg", "-i", "input.mp4", "-c:v", "libx264", "output.mp4"]\<close>.
\<close>

theorem is_command_secure_rejects_and_accepts:
  "(command = [] \<or> (\<not> endswith (hd command) ''ffmpeg'' \<and> \<not> endswith (hd command) ''ffprobe'')
      \<longrightarrow> \<not> is_command_secure command)
   \<and> (arg \<in> set (non_filter_args command)
        \<and> (CHR '';'' \<in> set arg \<or> CHR ''&'' \<in> set arg \<or> CHR ''|'' \<in> set arg \<or> CHR 0x60 \<in> set arg
             \<or> (\<exists>u v. arg = u @ ''$('' @ v) \<or> (\<exists>u v. arg = u @ ''${'' @ v))
      \<longrightarrow> \<not> is_command_secure command)
   \<and> is_command_secure [''ffmpeg'', ''-i'', ''input.mp4'', ''-c:v'', ''libx264'', ''output.mp4'']"
proof (intro conjI impI)
  assume "command = [] \<or> (\<not> endswith (hd command) ''ffmpeg'' \<and> \<not> endswith (hd command) ''ffprobe'')"
  then show "\<not> is_command_secure command" by (rule insecure_executable)
next
  assume a: "arg \<in> set (non_filter_args command)
        \<and> (CHR '';'' \<in> set arg \<or> CHR ''&'' \<in> set arg \<or> CHR ''|'' \<in> set arg \<or> CHR 0x60 \<in> set arg
             \<or> (\<exists>u v. arg = u @ ''$('' @ v) \<or> (\<exists>u v. arg = u @ ''${'' @ v))"
  then have kept: "arg \<in> set (non_filter_args command)" by blast
  from a consider (semi) "CHR '';'' \<in> set arg"
    | (meta) "CHR ''&'' \<in> set arg \<or> CHR ''|'' \<in> set arg \<or> CHR 0x60 \<in> set arg"
    | (dollar) "(\<exists>u v. arg = u @ ''$('' @ v) \<or> (\<exists>u v. arg = u @ ''${'' @ v)"
    by blast
  then show "\<not> is_command_secure command"
  proof cases
    case semi
    with kept show ?thesis by (rule insecure_semicolon)
  next
    case meta
    then obtain c where "c \<in> set ''&|`''" and "c \<in> set arg" by auto
    with kept show ?thesis by (rule insecure_metachar)
  next
    case dollar
    then obtain b u v where "b = CHR ''('' \<or> b = CHR ''{''" and "arg = u @ CHR ''$'' # b # v"
      by auto
    with kept show ?thesis by (rule insecure_dollar)
  qed
next
  show "is_command_secure [''ffmpeg'', ''-i'', ''input.mp4'', ''-c:v'', ''libx264'', ''output.mp4'']"
    by (rule baseline_secure)
qed

theorem is_command_secure_rejects_and_accepts_witness:
  "([''python'', ''-c'', ''pass''] = []
      \<or> (\<not> endswith (hd [''python'', ''-c'', ''pass'']) ''ffmpeg''
          \<and> \<not> endswith (hd [''python'', ''-c'', ''pass'']) ''ffprobe''))
   \<and> \<not> is_command_secure [''python'', ''-c'', ''pass'']
   \<and> ''$(id)'' \<in> set (non_filter_args [''ffmpeg'', ''-vf'', ''a;b'', ''-i'', ''$(id)'', ''o.mp4''])
   \<and> (\<exists>u v. ''$(id)'' = u @ ''$('' @ v)
   \<and> \<not> is_command_secure [''ffmpeg'', ''-vf'', ''a;b'', ''-i'', ''$(id)'', ''o.mp4'']"
proof -
  have h1: "[''python'', ''-c'', ''pass''] = []
      \<or> (\<not> endswith (hd [''python'', ''-c'', ''pass'']) ''ffmpeg''
          \<and> \<not> endswith (hd [''python'', ''-c'', ''pass'']) ''ffprobe'')"
    by (simp add: endswith_def)
  have h2: "''$(id)'' \<in> set (non_filter_args [''ffmpeg'', ''-vf'', ''a;b'', ''-i'', ''$(id)'', ''o.mp4''])"
    by (simp add: FILTER_FLAGS_def)
  have "''$(id)'' = [] @ ''$('' @ ''id)''" by simp
  then have h3: "\<exists>u v. ''$(id)'' = u @ ''$('' @ v" by blast
  from h1 have c1: "\<not> is_command_secure [''python'', ''-c'', ''pass'']"
    using is_command_secure_rejects_and_accepts [of "[''python'', ''-c'', ''pass'']"] by blast
  from h2 h3 have c2: "\<not> is_command_secure [''ffmpeg'', ''-vf'', ''a;b'', ''-i'', ''$(id)'', ''o.mp4'']"
    using is_command_secure_rejects_and_accepts
      [of "[''ffmpeg'', ''-vf'', ''a;b'', ''-i'', ''$(id)'', ''o.mp4'']" "''$(id)''"]
    by blast
  from h1 h2 h3 c1 c2 show ?thesis by blast
qed

lemma secure_arm: "is_command_secure [''ffmpeg'', ''-i'', ''arm.mp4'', ''out.mp4'']"
  by (simp add: secure_eval)

lemma secure_formatting: "is_command_secure [''ffmpeg'', ''-i'', ''formatting.mp4'', ''out.mp4'']"
  by (simp add: secure_eval)

lemma secure_reformat: "is_command_secure [''ffmpeg'', ''-i'', ''reformat.mp4'', ''out.mp4'']"
  by (simp add: secure_eval)

lemma secure_delete: "is_command_secure [''ffmpeg'', ''-i'', ''delete.mp4'', ''out.mp4'']"
  by (simp add: secure_eval)

lemma secure_systemd: "is_command_secure [''ffmpeg'', ''-i'', ''systemd.mp4'', ''out.mp4'']"
  by (simp add: secure_eval)

subsection \<open>Words and word boundaries\<close>

text \<open>
  A word character is no whitespace and none of the characters the patterns look for
  outside words.
\<close>

lemma word_not_space: "is_word c \<Longrightarrow> \<not> is_space c"
  by (auto simp: is_word_def is_space_def Let_def)

lemma word_not_punct:
  "is_word c \<Longrightarrow> c \<notin> set '' !#$%&()*+,-./:;<=>?@[]^`{|}~''"
  using nonword_chars by (auto simp: list_all_iff)

text \<open>
  A literal token followed by the tail \<open>q\<close> of its pattern, matched inside a word \<open>W\<close>
  that a character \<open>d\<close> outside the token ends: the match needs the whole word to be
  the token, when \<open>q\<close> cannot start at a word character that follows a word character.
\<close>

lemma one_ignores_flag: "rx_match (One p # r) w s = rx_match (One p # r) True s"
  by (cases s) simp_all

lemma lit_word_match:
  assumes "\<forall>c\<in>set W. is_word c"
    and "\<forall>a\<in>set tok. \<not> chi a d"
    and "\<And>c s. is_word c \<Longrightarrow> rx_match q True (c # s) = None"
  shows "rx_match (lit_i tok @ q) True (W @ d # rest)
         = (if map ascii_lower W = map ascii_lower tok then rx_match q True (d # rest) else None)"
  using assms(1,2)
proof (induction tok arbitrary: W)
  case Nil
  then show ?case using assms(3) by (cases W) (simp_all add: lit_i_def)
next
  case (Cons a tok)
  show ?case
  proof (cases W)
    case Nil
    with Cons.prems show ?thesis by (simp add: lit_i_def)
  next
    case (Cons c W')
    with Cons.prems have "is_word c" "\<forall>c\<in>set W'. is_word c" "\<forall>a\<in>set tok. \<not> chi a d"
      by simp_all
    with Cons.IH [of W'] Cons show ?thesis
      by (auto simp: lit_i_def chi_def)
  qed
qed

text \<open>
  A pattern that starts with \<open>\b\<close> has no match that starts inside a word: the search
  runs on behind the word.
\<close>

lemma search_skips_word:
  "\<forall>c\<in>set W. is_word c \<Longrightarrow> rx_search_from (Bnd # r) True (W @ s) = rx_search_from (Bnd # r) True s"
  by (induction W) simp_all

lemma bounded_pattern_after_word:
  assumes word: "\<forall>c\<in>set W. is_word c"
    and tok: "tok \<noteq> []"
    and sep: "\<forall>a\<in>set tok. \<not> chi a d"
    and q: "\<And>c s. is_word c \<Longrightarrow> rx_match q True (c # s) = None"
    and whole: "map ascii_lower W = map ascii_lower tok \<Longrightarrow> rx_match q True (d # rest) = None"
    and tail: "rx_search_from (Bnd # lit_i tok @ q) True (d # rest) = None"
      "rx_search_from (Bnd # lit_i tok @ q) False (d # rest) = None"
  shows "rx_search_from (Bnd # lit_i tok @ q) False (W @ d # rest) = None"
proof (cases W)
  case Nil
  with tail(2) show ?thesis by simp
next
  case (Cons c W')
  from tok obtain a tok' where t: "tok = a # tok'" by (cases tok) auto
  have "rx_match (lit_i tok @ q) False (W @ d # rest) = rx_match (lit_i tok @ q) True (W @ d # rest)"
    unfolding t lit_i_def by (simp only: list.map append_Cons one_ignores_flag [of _ _ False])
  also have "\<dots> = None"
    using lit_word_match [OF word sep q, of rest] whole by simp
  finally have m: "rx_match (lit_i tok @ q) False (W @ d # rest) = None" .
  from word Cons have c: "is_word c" "\<forall>c\<in>set W'. is_word c" by simp_all
  have "rx_match (Bnd # lit_i tok @ q) False (W @ d # rest) = None"
    using m by simp
  moreover have "rx_search_from (Bnd # lit_i tok @ q) True (W' @ d # rest) = None"
    using search_skips_word [OF c(2), of "lit_i tok @ q" "d # rest"] tail(1) by simp
  ultimately show ?thesis using Cons c(1) by simp
qed


text \<open>The three tails of the patterns: \<open>\s+\<close>, \<open>\s*\(\<close> and \<open>\b\<close>.\<close>

lemma tail_plus: "is_word c \<Longrightarrow> rx_match (Plus is_space # r) w (c # s) = None"
  by (simp add: word_not_space)

lemma tail_call: "is_word c \<Longrightarrow> rx_match [Star is_space, One (ch CHR ''('')] w (c # s) = None"
  using word_not_punct [of c] by (simp add: word_not_space ch_def)

lemma tail_bnd: "is_word c \<Longrightarrow> rx_match [Bnd] True (c # s) = None"
  by simp

lemma word_not_paren: "is_word c \<Longrightarrow> c \<noteq> CHR ''(''"
  using word_not_punct [of c] by auto

lemmas pattern_eval = word_not_space word_not_paren lit_def lit_i_def ch_def chi_def one_of_def one_of_i_def char_class_simps


lemma word_has_no: "\<forall>c\<in>set W. is_word c \<Longrightarrow> \<not> is_word a \<Longrightarrow> a \<notin> set W"
  by auto

lemma no_metachar_in_word:
  assumes "\<forall>c\<in>set W. is_word c"
  shows "CHR ''&'' \<notin> set W" and "CHR ''|'' \<notin> set W" and "CHR 0x60 \<notin> set W"
    and "CHR ''$'' \<notin> set W" and "CHR ''>'' \<notin> set W" and "CHR '';'' \<notin> set W"
    and "CHR ''-'' \<notin> set W"
  by (rule word_has_no [OF assms], simp add: char_class_simps)+

lemma bounded_pattern_in_command:
  assumes word: "\<forall>c\<in>set W. is_word c"
    and tok: "tok \<noteq> []"
    and sep: "\<forall>a\<in>set tok. \<not> chi a d"
    and q: "\<And>c s. is_word c \<Longrightarrow> rx_match q True (c # s) = None"
    and whole: "map ascii_lower W = map ascii_lower tok \<Longrightarrow> rx_match q True (d # rest) = None"
    and tail: "rx_search_from (Bnd # lit_i tok @ q) True (d # rest) = None"
      "rx_search_from (Bnd # lit_i tok @ q) False (d # rest) = None"
    and prefix: "\<And>s. rx_search_from (Bnd # lit_i tok @ q) False (''ffmpeg -i '' @ s)
                     = rx_search_from (Bnd # lit_i tok @ q) False s"
  shows "rx_search_from (Bnd # lit_i tok @ q) False (''ffmpeg -i '' @ W @ d # rest) = None"
  using bounded_pattern_after_word [OF word tok sep q whole tail] prefix [of "W @ d # rest"]
  by simp

text \<open>
  No pattern is found in \<open>ffmpeg -i W.mp4 out.mp4\<close>, for a word \<open>W\<close> other than the
  four tokens that stand between two \<open>\b\<close>; none in \<open>ffmpeg -i W out.mp4\<close>, for a
  word other than those and \<open>rm\<close> and \<open>del\<close>, which \<open>\s+\<close> follows.
\<close>

lemma word_dot_no_pattern:
  assumes word: "\<forall>c\<in>set W. is_word c"
    and other: "map ascii_lower W \<notin> set [''sudo'', ''chmod'', ''chown'', ''mkfs'']"
  shows "list_all (\<lambda>pat. rx_search_from pat False (''ffmpeg -i '' @ W @ ''.mp4 out.mp4'') = None) DANGEROUS_PATTERNS"
proof -
  let ?T = "''ffmpeg -i '' @ W @ ''.mp4 out.mp4''"
  have p1: "rx_search_from (Bnd # lit_i ''rm'' @ [Plus is_space, One (ch CHR ''-''), One (chi CHR ''r''), Opt (chi CHR ''f''), Bnd]) False ?T = None"
    by (rule bounded_pattern_in_command [OF word, where d = "CHR ''.''" and rest = "''mp4 out.mp4''"])
      (insert other, simp_all add: pattern_eval)
  have p2: "rx_search_from (Bnd # lit_i ''rm'' @ [Plus is_space]) False ?T = None"
    by (rule bounded_pattern_in_command [OF word, where d = "CHR ''.''" and rest = "''mp4 out.mp4''"])
      (insert other, simp_all add: pattern_eval)
  have p3: "rx_search_from (Bnd # lit_i ''del'' @ [Plus is_space, One (ch CHR ''/''), One (one_of_i ''sfq''), Bnd]) False ?T = None"
    by (rule bounded_pattern_in_command [OF word, where d = "CHR ''.''" and rest = "''mp4 out.mp4''"])
      (insert other, simp_all add: pattern_eval)
  have p4: "rx_search_from (Bnd # lit_i ''del'' @ [Plus is_space]) False ?T = None"
    by (rule bounded_pattern_in_command [OF word, where d = "CHR ''.''" and rest = "''mp4 out.mp4''"])
      (insert other, simp_all add: pattern_eval)
  have p5: "rx_search_from (Bnd # lit_i ''format'' @ [Plus is_space, One (one_of_i ''abcdefghijklmnopqrstuvwxyz''), One (ch CHR '':'')]) False ?T = None"
    by (rule bounded_pattern_in_command [OF word, where d = "CHR ''.''" and rest = "''mp4 out.mp4''"])
      (insert other, simp_all add: pattern_eval)
  have p6: "rx_search_from (Bnd # lit_i ''system'' @ [Star is_space, One (ch CHR ''('')]) False ?T = None"
    by (rule bounded_pattern_in_command [OF word, where d = "CHR ''.''" and rest = "''mp4 out.mp4''"])
      (insert other, simp_all add: pattern_eval)
  have p7: "rx_search_from (Bnd # lit_i ''exec'' @ [Star is_space, One (ch CHR ''('')]) False ?T = None"
    by (rule bounded_pattern_in_command [OF word, where d = "CHR ''.''" and rest = "''mp4 out.mp4''"])
      (insert other, simp_all add: pattern_eval)
  have p8: "rx_search_from (Bnd # lit_i ''eval'' @ [Star is_space, One (ch CHR ''('')]) False ?T = None"
    by (rule bounded_pattern_in_command [OF word, where d = "CHR ''.''" and rest = "''mp4 out.mp4''"])
      (insert other, simp_all add: pattern_eval)
  have p9: "rx_search_from ([One (one_of ''&|`'')]) False ?T = None"
    unfolding lit_def list.map
    by (rule search_needs_first) (use no_metachar_in_word [OF word] in \<open>auto simp: ch_def one_of_def\<close>)
  have p10: "rx_search_from (lit ''$('') False ?T = None"
    unfolding lit_def list.map
    by (rule search_needs_first) (use no_metachar_in_word [OF word] in \<open>auto simp: ch_def one_of_def\<close>)
  have p11: "rx_search_from (lit ''${'') False ?T = None"
    unfolding lit_def list.map
    by (rule search_needs_first) (use no_metachar_in_word [OF word] in \<open>auto simp: ch_def one_of_def\<close>)
  have p12: "rx_search_from ([One (ch CHR ''>''), Star is_space, One (one_of [CHR ''/'', CHR 0x5C])]) False ?T = None"
    unfolding lit_def list.map
    by (rule search_needs_first) (use no_metachar_in_word [OF word] in \<open>auto simp: ch_def one_of_def\<close>)
  have p13: "rx_search_from (Bnd # lit_i ''sudo'' @ [Bnd]) False ?T = None"
    by (rule bounded_pattern_in_command [OF word, where d = "CHR ''.''" and rest = "''mp4 out.mp4''"])
      (insert other, simp_all add: pattern_eval)
  have p14: "rx_search_from (Bnd # lit_i ''chmod'' @ [Bnd]) False ?T = None"
    by (rule bounded_pattern_in_command [OF word, where d = "CHR ''.''" and rest = "''mp4 out.mp4''"])
      (insert other, simp_all add: pattern_eval)
  have p15: "rx_search_from (Bnd # lit_i ''chown'' @ [Bnd]) False ?T = None"
    by (rule bounded_pattern_in_command [OF word, where d = "CHR ''.''" and rest = "''mp4 out.mp4''"])
      (insert other, simp_all add: pattern_eval)
  have p16: "rx_search_from (Bnd # lit_i ''mkfs'' @ [Bnd]) False ?T = None"
    by (rule bounded_pattern_in_command [OF word, where d = "CHR ''.''" and rest = "''mp4 out.mp4''"])
      (insert other, simp_all add: pattern_eval)
  have p17: "rx_search_from (Bnd # lit_i ''dd'' @ [Plus is_space] @ lit_i ''if='') False ?T = None"
    by (rule bounded_pattern_in_command [OF word, where d = "CHR ''.''" and rest = "''mp4 out.mp4''"])
      (insert other, simp_all add: pattern_eval)
  show ?thesis
    unfolding DANGEROUS_PATTERNS_def list.pred_inject
    by (intro conjI p1 p2 p3 p4 p5 p6 p7 p8 p9 p10 p11 p12 p13 p14 p15 p16 p17) simp
qed

lemma word_space_no_pattern:
  assumes word: "\<forall>c\<in>set W. is_word c"
    and other: "map ascii_lower W \<notin> set [''rm'', ''del'', ''sudo'', ''chmod'', ''chown'', ''mkfs'']"
  shows "list_all (\<lambda>pat. rx_search_from pat False (''ffmpeg -i '' @ W @ '' out.mp4'') = None) DANGEROUS_PATTERNS"
proof -
  let ?T = "''ffmpeg -i '' @ W @ '' out.mp4''"
  have p1: "rx_search_from (Bnd # lit_i ''rm'' @ [Plus is_space, One (ch CHR ''-''), One (chi CHR ''r''), Opt (chi CHR ''f''), Bnd]) False ?T = None"
    by (rule bounded_pattern_in_command [OF word, where d = "CHR '' ''" and rest = "''out.mp4''"])
      (insert other, simp_all add: pattern_eval)
  have p2: "rx_search_from (Bnd # lit_i ''rm'' @ [Plus is_space]) False ?T = None"
    by (rule bounded_pattern_in_command [OF word, where d = "CHR '' ''" and rest = "''out.mp4''"])
      (insert other, simp_all add: pattern_eval)
  have p3: "rx_search_from (Bnd # lit_i ''del'' @ [Plus is_space, One (ch CHR ''/''), One (one_of_i ''sfq''), Bnd]) False ?T = None"
    by (rule bounded_pattern_in_command [OF word, where d = "CHR '' ''" and rest = "''out.mp4''"])
      (insert other, simp_all add: pattern_eval)
  have p4: "rx_search_from (Bnd # lit_i ''del'' @ [Plus is_space]) False ?T = None"
    by (rule bounded_pattern_in_command [OF word, where d = "CHR '' ''" and rest = "''out.mp4''"])
      (insert other, simp_all add: pattern_eval)
  have p5: "rx_search_from (Bnd # lit_i ''format'' @ [Plus is_space, One (one_of_i ''abcdefghijklmnopqrstuvwxyz''), One (ch CHR '':'')]) False ?T = None"
    by (rule bounded_pattern_in_command [OF word, where d = "CHR '' ''" and rest = "''out.mp4''"])
      (insert other, simp_all add: pattern_eval)
  have p6: "rx_search_from (Bnd # lit_i ''system'' @ [Star is_space, One (ch CHR ''('')]) False ?T = None"
    by (rule bounded_pattern_in_command [OF word, where d = "CHR '' ''" and rest = "''out.mp4''"])
      (insert other, simp_all add: pattern_eval)
  have p7: "rx_search_from (Bnd # lit_i ''exec'' @ [Star is_space, One (ch CHR ''('')]) False ?T = None"
    by (rule bounded_pattern_in_command [OF word, where d = "CHR '' ''" and rest = "''out.mp4''"])
      (insert other, simp_all add: pattern_eval)
  have p8: "rx_search_from (Bnd # lit_i ''eval'' @ [Star is_space, One (ch CHR ''('')]) False ?T = None"
    by (rule bounded_pattern_in_command [OF word, where d = "CHR '' ''" and rest = "''out.mp4''"])
      (insert other, simp_all add: pattern_eval)
  have p9: "rx_search_from ([One (one_of ''&|`'')]) False ?T = None"
    unfolding lit_def list.map
    by (rule search_needs_first) (use no_metachar_in_word [OF word] in \<open>auto simp: ch_def one_of_def\<close>)
  have p10: "rx_search_from (lit ''$('') False ?T = None"
    unfolding lit_def list.map
    by (rule search_needs_first) (use no_metachar_in_word [OF word] in \<open>auto simp: ch_def one_of_def\<close>)
  have p11: "rx_search_from (lit ''${'') False ?T = None"
    unfolding lit_def list.map
    by (rule search_needs_first) (use no_metachar_in_word [OF word] in \<open>auto simp: ch_def one_of_def\<close>)
  have p12: "rx_search_from ([One (ch CHR ''>''), Star is_space, One (one_of [CHR ''/'', CHR 0x5C])]) False ?T = None"
    unfolding lit_def list.map
    by (rule search_needs_first) (use no_metachar_in_word [OF word] in \<open>auto simp: ch_def one_of_def\<close>)
  have p13: "rx_search_from (Bnd # lit_i ''sudo'' @ [Bnd]) False ?T = None"
    by (rule bounded_pattern_in_command [OF word, where d = "CHR '' ''" and rest = "''out.mp4''"])
      (insert other, simp_all add: pattern_eval)
  have p14: "rx_search_from (Bnd # lit_i ''chmod'' @ [Bnd]) False ?T = None"
    by (rule bounded_pattern_in_command [OF word, where d = "CHR '' ''" and rest = "''out.mp4''"])
      (insert other, simp_all add: pattern_eval)
  have p15: "rx_search_from (Bnd # lit_i ''chown'' @ [Bnd]) False ?T = None"
    by (rule bounded_pattern_in_command [OF word, where d = "CHR '' ''" and rest = "''out.mp4''"])
      (insert other, simp_all add: pattern_eval)
  have p16: "rx_search_from (Bnd # lit_i ''mkfs'' @ [Bnd]) False ?T = None"
    by (rule bounded_pattern_in_command [OF word, where d = "CHR '' ''" and rest = "''out.mp4''"])
      (insert other, simp_all add: pattern_eval)
  have p17: "rx_search_from (Bnd # lit_i ''dd'' @ [Plus is_space] @ lit_i ''if='') False ?T = None"
    by (rule bounded_pattern_in_command [OF word, where d = "CHR '' ''" and rest = "''out.mp4''"])
      (insert other, simp_all add: pattern_eval)
  show ?thesis
    unfolding DANGEROUS_PATTERNS_def list.pred_inject
    by (intro conjI p1 p2 p3 p4 p5 p6 p7 p8 p9 p10 p11 p12 p13 p14 p15 p16 p17) simp
qed


text \<open>
  Right after a word character none of the thirteen patterns that start with \<open>\b\<close>
  matches, whatever follows.
\<close>

lemma lower_is_letter:
  assumes "ascii_lower x = l" and "l \<in> set ''abcdefghijklmnopqrstuvwxyz''"
  shows "is_word x"
proof (cases "map_of (zip ''ABCDEFGHIJKLMNOPQRSTUVWXYZ'' ''abcdefghijklmnopqrstuvwxyz'') x")
  case None
  with assms have "x \<in> set ''abcdefghijklmnopqrstuvwxyz''" by (simp add: ascii_lower_def)
  with word_chars show ?thesis unfolding list_all_iff by auto
next
  case (Some y)
  then have "(x, y) \<in> set (zip ''ABCDEFGHIJKLMNOPQRSTUVWXYZ'' ''abcdefghijklmnopqrstuvwxyz'')"
    by (rule map_of_SomeD)
  then have "x \<in> set ''ABCDEFGHIJKLMNOPQRSTUVWXYZ''"
    by (rule set_zip_leftD)
  with word_chars show ?thesis unfolding list_all_iff by auto
qed

lemma bounded_start_after_word:
  assumes "a \<in> set ''abcdefghijklmnopqrstuvwxyz''"
  shows "rx_match (Bnd # lit_i (a # tok) @ q) True s = None"
proof (cases s)
  case Nil
  then show ?thesis by (simp add: lit_i_def)
next
  case (Cons c t)
  have "chi a c \<Longrightarrow> is_word c"
    using lower_is_letter [of c "ascii_lower a"] assms lower_other_chars
    by (auto simp: chi_def list_all_iff)
  with Cons show ?thesis by (auto simp: lit_i_def)
qed

lemma no_match_after_word:
  "list_all (\<lambda>pat. rx_match pat True s = None) (take 8 DANGEROUS_PATTERNS @ drop 12 DANGEROUS_PATTERNS)"
  unfolding DANGEROUS_PATTERNS_def
  by (simp add: bounded_start_after_word del: rx_match.simps)

text \<open>The verdict of \<open>_is_command_secure\<close> from its parts.\<close>

lemma secure_by_parts:
  assumes "command = exe0 # others"
    and "list_ex (endswith exe0) VALID_EXECUTABLES"
    and "non_filter_args command = args"
    and "join '' '' args = text"
    and "list_all (\<lambda>pat. rx_search_from pat False text = None) DANGEROUS_PATTERNS"
    and "\<forall>arg\<in>set args. CHR '';'' \<notin> set arg"
  shows "is_command_secure command"
  using assms
  by (auto simp: is_command_secure_def Let_def list_ex_iff list_all_iff found_def re_search_def)

lemma word_not_flag: "\<forall>c\<in>set W. is_word c \<Longrightarrow> W @ ext \<in> set FILTER_FLAGS \<Longrightarrow> ext \<in> set FILTER_FLAGS \<and> W = []"
  using no_metachar_in_word(7) [of W] by (cases W) (auto simp: FILTER_FLAGS_def)

lemma word_file_secure:
  assumes word: "\<forall>c\<in>set W. is_word c"
    and other: "map ascii_lower W \<notin> set [''sudo'', ''chmod'', ''chown'', ''mkfs'']"
  shows "is_command_secure [''ffmpeg'', ''-i'', W @ ''.mp4'', ''out.mp4'']"
proof (rule secure_by_parts)
  show "[''ffmpeg'', ''-i'', W @ ''.mp4'', ''out.mp4''] = ''ffmpeg'' # [''-i'', W @ ''.mp4'', ''out.mp4'']"
    by simp
  show "list_ex (endswith ''ffmpeg'') VALID_EXECUTABLES"
    by (simp add: endswith_def VALID_EXECUTABLES_def)
  show "non_filter_args [''ffmpeg'', ''-i'', W @ ''.mp4'', ''out.mp4'']
        = [''ffmpeg'', ''-i'', W @ ''.mp4'', ''out.mp4'']"
    using word_not_flag [OF word, of "''.mp4''"] by (auto simp: FILTER_FLAGS_def)
  show "join '' '' [''ffmpeg'', ''-i'', W @ ''.mp4'', ''out.mp4''] = ''ffmpeg -i '' @ W @ ''.mp4 out.mp4''"
    by simp
  show "list_all (\<lambda>pat. rx_search_from pat False (''ffmpeg -i '' @ W @ ''.mp4 out.mp4'') = None)
          DANGEROUS_PATTERNS"
    using word other by (rule word_dot_no_pattern)
  show "\<forall>arg\<in>set [''ffmpeg'', ''-i'', W @ ''.mp4'', ''out.mp4'']. CHR '';'' \<notin> set arg"
    using no_metachar_in_word(6) [OF word] by simp
qed

lemma word_argument_secure:
  assumes word: "\<forall>c\<in>set W. is_word c"
    and other: "map ascii_lower W \<notin> set [''rm'', ''del'', ''sudo'', ''chmod'', ''chown'', ''mkfs'']"
  shows "is_command_secure [''ffmpeg'', ''-i'', W, ''out.mp4'']"
proof (rule secure_by_parts)
  show "[''ffmpeg'', ''-i'', W, ''out.mp4''] = ''ffmpeg'' # [''-i'', W, ''out.mp4'']"
    by simp
  show "list_ex (endswith ''ffmpeg'') VALID_EXECUTABLES"
    by (simp add: endswith_def VALID_EXECUTABLES_def)
  show "non_filter_args [''ffmpeg'', ''-i'', W, ''out.mp4''] = [''ffmpeg'', ''-i'', W, ''out.mp4'']"
    using word_not_flag [OF word, of "[]"] by (auto simp: FILTER_FLAGS_def)
  show "join '' '' [''ffmpeg'', ''-i'', W, ''out.mp4''] = ''ffmpeg -i '' @ W @ '' out.mp4''"
    by simp
  show "list_all (\<lambda>pat. rx_search_from pat False (''ffmpeg -i '' @ W @ '' out.mp4'') = None)
          DANGEROUS_PATTERNS"
    using word other by (rule word_space_no_pattern)
  show "\<forall>arg\<in>set [''ffmpeg'', ''-i'', W, ''out.mp4'']. CHR '';'' \<notin> set arg"
    using no_metachar_in_word(6) [OF word] by simp
qed

text \<open>The words left out are rejected: the token itself is not inside a longer word.\<close>

lemma exact_tokens_rejected:
  "\<not> is_command_secure [''ffmpeg'', ''-i'', ''rm'', ''out.mp4'']"
  "\<not> is_command_secure [''ffmpeg'', ''-i'', ''sudo.mp4'', ''out.mp4'']"
  by (simp_all add: secure_eval)

text \<open>
  Claim C2. A dangerous token inside a longer word does not make \<open>_is_command_secure\<close>
  reject, because the patterns match the token between word boundaries. For every word
  \<open>W\<close> (a string of word characters) the command \<open>["ffmpeg", "-i", W + ".mp4", "out.mp4"]\<close>
  is accepted unless \<open>W\<close> is, in some case, one of \<open>sudo\<close>, \<open>chmod\<close>, \<open>chown\<close>,
  \<open>mkfs\<close>; the command \<open>["ffmpeg", "-i", W, "out.mp4"]\<close>, where whitespace follows the
  word, is accepted unless \<open>W\<close> is one of those or \<open>rm\<close> or \<open>del\<close>. So \<open>arm\<close>,
  \<open>reformat\<close>, \<open>model\<close> or \<open>ecosystem\<close> in front of whitespace is accepted. None of
  the thirteen patterns that start with \<open>\b\<close> matches at a position that follows a word
  character. In particular the commands are accepted for \<open>X\<close> each of \<open>arm.mp4\<close>,
  \<open>formatting.mp4\<close>, \<open>reformat.mp4\<close>, \<open>delete.mp4\<close> and \<open>systemd.mp4\<close>.
\<close>

theorem word_boundary_no_false_positive:
  "((\<forall>c\<in>set W. is_word c)
      \<and> map ascii_lower W \<notin> set [''sudo'', ''chmod'', ''chown'', ''mkfs'']
     \<longrightarrow> is_command_secure [''ffmpeg'', ''-i'', W @ ''.mp4'', ''out.mp4''])
   \<and> ((\<forall>c\<in>set W. is_word c)
      \<and> map ascii_lower W \<notin> set [''rm'', ''del'', ''sudo'', ''chmod'', ''chown'', ''mkfs'']
     \<longrightarrow> is_command_secure [''ffmpeg'', ''-i'', W, ''out.mp4''])
   \<and> list_all (\<lambda>pat. rx_match pat True s = None)
         (take 8 DANGEROUS_PATTERNS @ drop 12 DANGEROUS_PATTERNS)
   \<and> is_command_secure [''ffmpeg'', ''-i'', ''arm.mp4'', ''out.mp4'']
   \<and> is_command_secure [''ffmpeg'', ''-i'', ''formatting.mp4'', ''out.mp4'']
   \<and> is_command_secure [''ffmpeg'', ''-i'', ''reformat.mp4'', ''out.mp4'']
   \<and> is_command_secure [''ffmpeg'', ''-i'', ''delete.mp4'', ''out.mp4'']
   \<and> is_command_secure [''ffmpeg'', ''-i'', ''systemd.mp4'', ''out.mp4'']"
  using word_file_secure [of W] word_argument_secure [of W] no_match_after_word [of s]
    secure_arm secure_formatting secure_reformat secure_delete secure_systemd
  by (intro conjI impI) (erule conjE, assumption)+

theorem word_boundary_no_false_positive_witness:
  "list_all is_word ''arm''
   \<and> map ascii_lower ''arm'' \<notin> set [''rm'', ''del'', ''sudo'', ''chmod'', ''chown'', ''mkfs'']
   \<and> is_command_secure [''ffmpeg'', ''-i'', ''arm'', ''out.mp4'']
   \<and> is_command_secure [''ffmpeg'', ''-i'', ''arm.mp4'', ''out.mp4'']"
  using word_boundary_no_false_positive [of "''arm''"]
  by (simp add: char_class_simps)

subsection \<open>The arguments the scan skips\<close>

lemma exempt_from_bounds:
  "j \<in> set (exempt_from i xs)
   \<Longrightarrow> i < j \<and> j < i + length xs \<and> xs ! (j - i - 1) \<in> set FILTER_FLAGS"
proof (induction i xs rule: exempt_from.induct)
  case (3 i a b rest)
  show ?case
  proof (cases "a \<in> set FILTER_FLAGS")
    case True
    show ?thesis
    proof (cases "j = Suc i")
      case True
      with \<open>a \<in> set FILTER_FLAGS\<close> show ?thesis by simp
    next
      case False
      with True 3 have "j \<in> set (exempt_from (i + 2) rest)" by simp
      with True 3
      have h: "i + 2 < j \<and> j < i + 2 + length rest \<and> rest ! (j - (i + 2) - 1) \<in> set FILTER_FLAGS"
        by blast
      then have "j = i + 3 + (j - (i + 3))" by arith
      then obtain k where "j = i + 3 + k" ..
      with h show ?thesis by simp
    qed
  next
    case False
    with 3 have "j \<in> set (exempt_from (Suc i) (b # rest))" by simp
    with False 3
    have h: "Suc i < j \<and> j < Suc i + length (b # rest)
             \<and> (b # rest) ! (j - Suc i - 1) \<in> set FILTER_FLAGS"
      by blast
    then have "j = i + 2 + (j - (i + 2))" by arith
    then obtain k where "j = i + 2 + k" ..
    with h show ?thesis by simp
  qed
qed simp_all

lemma exempt_from_update:
  "j \<in> set (exempt_from i xs) \<Longrightarrow> non_filter_args (xs[j - i := v]) = non_filter_args xs"
proof (induction i xs rule: exempt_from.induct)
  case (3 i a b rest)
  show ?case
  proof (cases "a \<in> set FILTER_FLAGS")
    case True
    show ?thesis
    proof (cases "j = Suc i")
      case True
      with \<open>a \<in> set FILTER_FLAGS\<close> show ?thesis by simp
    next
      case False
      with True 3 have m: "j \<in> set (exempt_from (i + 2) rest)" by simp
      with True 3 have ih: "non_filter_args (rest[j - (i + 2) := v]) = non_filter_args rest"
        by blast
      from m have "i + 2 < j" using exempt_from_bounds by blast
      then have "j = i + 3 + (j - (i + 3))" by arith
      then obtain k where "j = i + 3 + k" ..
      with ih True show ?thesis by simp
    qed
  next
    case False
    with 3 have m: "j \<in> set (exempt_from (Suc i) (b # rest))" by simp
    with False 3
    have ih: "non_filter_args ((b # rest)[j - Suc i := v]) = non_filter_args (b # rest)"
      by blast
    from m have "Suc i < j" using exempt_from_bounds by blast
    then have "j = i + 2 + (j - (i + 2))" by arith
    then obtain k where k: "j = i + 2 + k" ..
    with ih have "non_filter_args (b # rest[k := v]) = non_filter_args (b # rest)" by simp
    with k False show ?thesis by simp
  qed
qed simp_all

lemma flag_no_semicolon: "a \<in> set FILTER_FLAGS \<Longrightarrow> CHR '';'' \<notin> set a"
  by (auto simp: FILTER_FLAGS_def)

lemma kept_or_exempt:
  "k < length xs \<Longrightarrow> i + k \<notin> set (exempt_from i xs) \<Longrightarrow> xs ! k \<notin> set FILTER_FLAGS
   \<Longrightarrow> xs ! k \<in> set (non_filter_args xs)"
proof (induction i xs arbitrary: k rule: exempt_from.induct)
  case (1 i)
  then show ?case by simp
next
  case (2 i a)
  then show ?case by simp
next
  case (3 i a b rest)
  note p = "3.prems"
  show ?case
  proof (cases "a \<in> set FILTER_FLAGS")
    case True
    from p(3) True have "k \<noteq> 0" by (cases k) auto
    moreover from p(2) True have "k \<noteq> 1" by auto
    ultimately have "k = (k - 2) + 2" by arith
    then obtain m where m: "k = m + 2" ..
    with p(1) have "m < length rest" by simp
    moreover from p(2) True m have "i + 2 + m \<notin> set (exempt_from (i + 2) rest)"
      by (simp add: add.commute add.left_commute)
    moreover from p(3) m have "rest ! m \<notin> set FILTER_FLAGS" by simp
    ultimately have "rest ! m \<in> set (non_filter_args rest)"
      using "3.IH"(1)[OF True] by blast
    with True m show ?thesis by simp
  next
    case False
    show ?thesis
    proof (cases k)
      case 0
      with False show ?thesis by simp
    next
      case (Suc m)
      with p(1) have "m < length (b # rest)" by simp
      moreover from p(2) False Suc
      have "Suc i + m \<notin> set (exempt_from (Suc i) (b # rest))" by simp
      moreover from p(3) Suc have "(b # rest) ! m \<notin> set FILTER_FLAGS" by simp
      ultimately have "(b # rest) ! m \<in> set (non_filter_args (b # rest))"
        using "3.IH"(2)[OF False] by blast
      with False Suc show ?thesis by simp
    qed
  qed
qed

text \<open>
  Which arguments are skipped as values: exactly those that come right after a filter flag
  that is not itself skipped as the value of an earlier filter flag.
\<close>

lemma exempt_from_iff:
  "i + k \<in> set (exempt_from i xs) \<longleftrightarrow>
     0 < k \<and> k < length xs \<and> xs ! (k - 1) \<in> set FILTER_FLAGS
     \<and> i + (k - 1) \<notin> set (exempt_from i xs)"
proof (induction i xs arbitrary: k rule: exempt_from.induct)
  case (1 i)
  show ?case by simp
next
  case (2 i a)
  show ?case by auto
next
  case (3 i a b rest)
  have lo: "\<And>n ys j. j \<in> set (exempt_from n ys) \<Longrightarrow> n < j"
    using exempt_from_bounds by blast
  show ?case
  proof (cases "a \<in> set FILTER_FLAGS")
    case True
    note ih = "3.IH"(1)[OF True]
    consider (k0) "k = 0" | (k1) "k = 1" | (k2) "k = 2" | (k3) m where "k = Suc (Suc (Suc m))"
    proof -
      have "k = 0 \<or> k = 1 \<or> k = 2 \<or> k = Suc (Suc (Suc (k - 3)))" by arith
      then show ?thesis using that by blast
    qed
    then show ?thesis
    proof cases
      case k0
      with True show ?thesis by (auto dest: lo)
    next
      case k1
      with True show ?thesis by (auto dest: lo)
    next
      case k2
      with True show ?thesis by (auto dest: lo)
    next
      case k3
      have "i + 2 + (m + 1) \<in> set (exempt_from (i + 2) rest) \<longleftrightarrow>
              0 < m + 1 \<and> m + 1 < length rest \<and> rest ! (m + 1 - 1) \<in> set FILTER_FLAGS
              \<and> i + 2 + (m + 1 - 1) \<notin> set (exempt_from (i + 2) rest)"
        by (rule ih)
      then show ?thesis using True k3 by simp
    qed
  next
    case False
    note ih = "3.IH"(2)[OF False]
    consider (k0) "k = 0" | (k1) "k = 1" | (k2) m where "k = Suc (Suc m)"
    proof -
      have "k = 0 \<or> k = 1 \<or> k = Suc (Suc (k - 2))" by arith
      then show ?thesis using that by blast
    qed
    then show ?thesis
    proof cases
      case k0
      with False show ?thesis by (auto dest: lo)
    next
      case k1
      with False show ?thesis by (auto dest: lo)
    next
      case k2
      have "Suc i + (m + 1) \<in> set (exempt_from (Suc i) (b # rest)) \<longleftrightarrow>
              0 < m + 1 \<and> m + 1 < length (b # rest)
              \<and> (b # rest) ! (m + 1 - 1) \<in> set FILTER_FLAGS
              \<and> Suc i + (m + 1 - 1) \<notin> set (exempt_from (Suc i) (b # rest))"
        by (rule ih)
      then show ?thesis using False k2 by simp
    qed
  qed
qed

lemma exempt_args_iff:
  "j \<in> set (exempt_args command) \<longleftrightarrow>
     0 < j \<and> j < length command \<and> command ! (j - 1) \<in> set FILTER_FLAGS
     \<and> j - 1 \<notin> set (exempt_args command)"
  using exempt_from_iff [of 0 j command] by (simp add: exempt_args_def)

lemma exempt_value_irrelevant:
  assumes "j \<in> set (exempt_args command)"
  shows "is_command_secure (command[j := v]) = is_command_secure command"
proof -
  from assms have j: "0 < j" using exempt_from_bounds [of j 0 command]
    by (simp add: exempt_args_def)
  from assms have n: "non_filter_args (command[j := v]) = non_filter_args command"
    using exempt_from_update [of j 0 command v] by (simp add: exempt_args_def)
  show ?thesis
  proof (cases command)
    case Nil
    then show ?thesis by simp
  next
    case (Cons exe0 rest)
    with j obtain j' where "command[j := v] = exe0 # rest[j' := v]"
      by (cases j) simp_all
    with n Cons show ?thesis by (simp add: is_command_secure_def)
  qed
qed

lemma semicolon_outside_exempt:
  assumes "i < length command" and "i \<notin> set (exempt_args command)"
    and "CHR '';'' \<in> set (command ! i)"
  shows "\<not> is_command_secure command"
proof -
  from assms(3) have "command ! i \<notin> set FILTER_FLAGS" using flag_no_semicolon by blast
  with assms(1,2) have "command ! i \<in> set (non_filter_args command)"
    using kept_or_exempt [of i command 0] by (simp add: exempt_args_def)
  then show ?thesis using assms(3) by (rule insecure_semicolon)
qed

text \<open>
  Claim C3, as the code has it. The scan reads the arguments from left to right and skips a
  filter flag (\<open>-vf\<close>, \<open>-af\<close>, \<open>-filter_complex\<close>, \<open>-filter:v\<close>, \<open>-filter:a\<close>)
  together with the argument after it; \<open>exempt_args\<close> lists the indices of the arguments
  skipped as such values (by \<open>exempt_args_iff\<close>: the arguments right after a filter flag
  that is not itself skipped as the value of an earlier filter flag). The verdict does not
  depend on the text of such a value, so neither a semicolon nor a dangerous pattern inside
  it causes rejection; a semicolon in any other argument causes rejection.
\<close>

theorem filter_value_exempt:
  "(j \<in> set (exempt_args command)
      \<longrightarrow> is_command_secure (command[j := v]) = is_command_secure command)
   \<and> (i < length command \<and> i \<notin> set (exempt_args command) \<and> CHR '';'' \<in> set (command ! i)
      \<longrightarrow> \<not> is_command_secure command)"
  using exempt_value_irrelevant semicolon_outside_exempt by blast

theorem filter_value_exempt_witness:
  "4 \<in> set (exempt_args [''ffmpeg'', ''-i'', ''in.mp4'', ''-filter_complex'', ''scale=2:2'', ''out.mp4''])
   \<and> is_command_secure
        ([''ffmpeg'', ''-i'', ''in.mp4'', ''-filter_complex'', ''scale=2:2'', ''out.mp4'']
           [4 := ''[0:v]split[a][b];[a][b]hstack''])
      = is_command_secure [''ffmpeg'', ''-i'', ''in.mp4'', ''-filter_complex'', ''scale=2:2'', ''out.mp4'']
   \<and> 2 < length [''ffmpeg'', ''-i'', ''a;b'']
   \<and> 2 \<notin> set (exempt_args [''ffmpeg'', ''-i'', ''a;b''])
   \<and> CHR '';'' \<in> set ([''ffmpeg'', ''-i'', ''a;b''] ! 2)
   \<and> \<not> is_command_secure [''ffmpeg'', ''-i'', ''a;b'']"
proof -
  have h1: "4 \<in> set (exempt_args [''ffmpeg'', ''-i'', ''in.mp4'', ''-filter_complex'', ''scale=2:2'', ''out.mp4''])"
    by (simp add: exempt_args_def FILTER_FLAGS_def)
  have h2: "2 < length [''ffmpeg'', ''-i'', ''a;b'']
            \<and> 2 \<notin> set (exempt_args [''ffmpeg'', ''-i'', ''a;b''])
            \<and> CHR '';'' \<in> set ([''ffmpeg'', ''-i'', ''a;b''] ! 2)"
    by (simp add: exempt_args_def FILTER_FLAGS_def)
  from h1 have c1: "is_command_secure
        ([''ffmpeg'', ''-i'', ''in.mp4'', ''-filter_complex'', ''scale=2:2'', ''out.mp4'']
           [4 := ''[0:v]split[a][b];[a][b]hstack''])
      = is_command_secure [''ffmpeg'', ''-i'', ''in.mp4'', ''-filter_complex'', ''scale=2:2'', ''out.mp4'']"
    using filter_value_exempt
      [of 4 "[''ffmpeg'', ''-i'', ''in.mp4'', ''-filter_complex'', ''scale=2:2'', ''out.mp4'']"
          "''[0:v]split[a][b];[a][b]hstack''"]
    by blast
  from h2 have c2: "\<not> is_command_secure [''ffmpeg'', ''-i'', ''a;b'']"
    using filter_value_exempt [of _ "[''ffmpeg'', ''-i'', ''a;b'']" _ 2] by blast
  from h1 h2 c1 c2 show ?thesis by blast
qed

text \<open>
  The claim as it is worded, with "the argument immediately following one of the filter
  flags" read by position, fails when that flag is itself the value of an earlier filter
  flag: in \<open>["ffmpeg", "-vf", "-vf", "a;b", "out.mp4"]\<close> the argument \<open>a;b\<close> comes
  right after a \<open>-vf\<close>, the command without the semicolon is accepted, and the command
  is rejected.
\<close>

lemma double_flag_accepted: "is_command_secure [''ffmpeg'', ''-vf'', ''-vf'', ''ab'', ''out.mp4'']"
  by (simp add: secure_eval)

lemma double_flag_rejected: "\<not> is_command_secure [''ffmpeg'', ''-vf'', ''-vf'', ''a;b'', ''out.mp4'']"
  by (simp add: secure_eval)

theorem filter_value_exempt_counterexample:
  "[''ffmpeg'', ''-vf'', ''-vf'', ''a;b'', ''out.mp4''] ! 2 \<in> set FILTER_FLAGS
   \<and> is_command_secure [''ffmpeg'', ''-vf'', ''-vf'', ''ab'', ''out.mp4'']
   \<and> \<not> is_command_secure [''ffmpeg'', ''-vf'', ''-vf'', ''a;b'', ''out.mp4'']"
  using double_flag_accepted double_flag_rejected by (simp add: FILTER_FLAGS_def)

section \<open>Text in which no JSON is found\<close>

lemma strip_inside: "\<exists>pre post. s = pre @ strip s @ post"
proof -
  define d where "d = dropWhile is_space s"
  have "rev (dropWhile is_space (rev d)) @ rev (takeWhile is_space (rev d))
        = rev (takeWhile is_space (rev d) @ dropWhile is_space (rev d))"
    by (simp only: rev_append)
  also have "\<dots> = rev (rev d)" by (simp only: takeWhile_dropWhile_id)
  also have "\<dots> = d" by simp
  finally have "d = strip s @ rev (takeWhile is_space (rev d))"
    by (simp add: strip_def d_def)
  moreover have "s = takeWhile is_space s @ d" by (simp add: d_def)
  ultimately have "s = takeWhile is_space s @ strip s @ rev (takeWhile is_space (rev d))"
    by simp
  then show ?thesis by blast
qed

lemma takeWhile_stops: "c \<in> set xs \<Longrightarrow> length (takeWhile (\<lambda>x. x \<noteq> c) xs) < length xs"
  by (induction xs) auto

lemma str_find_Some:
  assumes "str_find s c = Some f"
  shows "f < length s \<and> s ! f = c"
proof -
  from assms have m: "c \<in> set s" and f: "f = length (takeWhile (\<lambda>x. x \<noteq> c) s)"
    by (auto simp: str_find_def split: if_splits)
  from m have b: "length (takeWhile (\<lambda>x. x \<noteq> c) s) < length s" by (rule takeWhile_stops)
  then have "\<not> (\<lambda>x. x \<noteq> c) (s ! length (takeWhile (\<lambda>x. x \<noteq> c) s))"
    by (rule nth_length_takeWhile)
  with b f show ?thesis by simp
qed

lemma str_rfind_Some:
  assumes "str_rfind s c = Some l"
  shows "l < length s \<and> s ! l = c"
proof -
  define k where "k = length (takeWhile (\<lambda>x. x \<noteq> c) (rev s))"
  from assms have m: "c \<in> set (rev s)" and l: "l = length s - 1 - k"
    by (auto simp: str_rfind_def k_def split: if_splits)
  from m have b: "k < length (rev s)" unfolding k_def by (rule takeWhile_stops)
  then have "\<not> (\<lambda>x. x \<noteq> c) (rev s ! k)"
    unfolding k_def by (rule nth_length_takeWhile)
  then have "rev s ! k = c" by simp
  moreover from b have k: "k < length s" by simp
  ultimately have "s ! (length s - Suc k) = c" by (simp add: rev_nth)
  with k l show ?thesis by simp
qed

lemma brace_pair_in_raw:
  assumes "str_find (strip raw) CHR ''{'' = Some f" and "str_rfind (strip raw) CHR ''}'' = Some l"
    and "f < l"
  shows "\<exists>i j. i < j \<and> j < length raw \<and> raw ! i = CHR ''{'' \<and> raw ! j = CHR ''}''"
proof -
  define t where "t = strip raw"
  obtain pre post where r: "raw = pre @ t @ post" unfolding t_def using strip_inside by blast
  from assms(1) have f: "f < length t" "t ! f = CHR ''{''"
    unfolding t_def using str_find_Some by blast+
  from assms(2) have l: "l < length t" "t ! l = CHR ''}''"
    unfolding t_def using str_rfind_Some by blast+
  have "raw ! (length pre + f) = CHR ''{''" by (simp add: r nth_append f)
  moreover have "raw ! (length pre + l) = CHR ''}''" by (simp add: r nth_append l)
  moreover have "length pre + l < length raw" using l(1) by (simp add: r)
  moreover from assms(3) have "length pre + f < length pre + l" by simp
  ultimately show ?thesis by blast
qed

lemma set_strip: "set (strip s) \<subseteq> set s"
proof -
  define t where "t = strip s"
  obtain pre post where "s = pre @ t @ post" unfolding t_def using strip_inside by blast
  then have "set t \<subseteq> set s" by auto
  then show ?thesis by (simp add: t_def)
qed

lemma lower_backtick: "ascii_lower c = CHR 0x60 \<Longrightarrow> c = CHR 0x60"
  by (auto simp: ascii_lower_def split: option.splits if_splits)

lemma no_fence_no_markdown:
  assumes "CHR 0x60 \<notin> set raw"
  shows "first_markdown markdown_patterns (strip raw) = None"
proof -
  from assms have "CHR 0x60 \<notin> set (strip raw)" using set_strip by blast
  moreover have "ascii_lower CHR 0x60 = CHR 0x60" by (simp add: ascii_lower_def)
  ultimately have "\<forall>c \<in> set (strip raw). \<not> chi CHR 0x60 c"
    by (auto simp: chi_def dest: lower_backtick)
  then have "\<And>r. rx_search_from (One (chi CHR 0x60) # r) False (strip raw) = None"
    by (rule search_needs_first)
  then show ?thesis
    by (simp add: markdown_patterns_def re_search_def lit_i_def)
qed

lemma no_char_no_pair:
  assumes "c \<notin> set s"
  shows "\<not> (\<exists>i j. i < j \<and> j < length s \<and> s ! i = c \<and> s ! j = d)"
proof
  assume "\<exists>i j. i < j \<and> j < length s \<and> s ! i = c \<and> s ! j = d"
  then obtain i j where "i < j" "j < length s" "s ! i = c" by blast
  then have "i < length s" by simp
  then have "s ! i \<in> set s" by (rule nth_mem)
  with \<open>s ! i = c\<close> assms show False by simp
qed

text \<open>
  Claim C7, as the code has it. When both extraction strategies fail on the input (no
  pattern for a fenced block yields text that starts with an opening brace, and no closing
  brace comes after an opening brace), \<open>extract_json_from_text\<close> returns the input with
  its leading and trailing whitespace removed, which is the input itself when it has none.
  \<open>no_fence_no_markdown\<close> shows that the first condition holds for every text without a
  backtick.
\<close>

theorem extract_json_passthrough:
  "first_markdown markdown_patterns (strip raw) = None
   \<and> \<not> (\<exists>i j. i < j \<and> j < length raw \<and> raw ! i = CHR ''{'' \<and> raw ! j = CHR ''}'')
   \<longrightarrow> extract_json_from_text raw = strip raw"
proof
  assume a: "first_markdown markdown_patterns (strip raw) = None
   \<and> \<not> (\<exists>i j. i < j \<and> j < length raw \<and> raw ! i = CHR ''{'' \<and> raw ! j = CHR ''}'')"
  then have md: "first_markdown markdown_patterns (strip raw) = None" by blast
  from a have nopair: "\<And>f l. str_find (strip raw) CHR ''{'' = Some f
    \<Longrightarrow> str_rfind (strip raw) CHR ''}'' = Some l \<Longrightarrow> \<not> f < l"
    using brace_pair_in_raw by blast
  have braces: "(case (str_find (strip raw) CHR ''{'', str_rfind (strip raw) CHR ''}'') of
           (Some first_brace, Some last_brace) \<Rightarrow>
             if last_brace > first_brace
             then take (last_brace + 1 - first_brace) (drop first_brace (strip raw))
             else strip raw
         | _ \<Rightarrow> strip raw) = strip raw"
    using nopair by (simp split: option.splits)
  show "extract_json_from_text raw = strip raw"
  proof (cases "raw = []")
    case True
    then show ?thesis by (simp add: extract_json_from_text_def strip_def)
  next
    case False
    then show ?thesis
      unfolding extract_json_from_text_def Let_def by (simp only: md braces option.case if_False if_cancel)
  qed
qed

theorem extract_json_passthrough_witness:
  "first_markdown markdown_patterns (strip '' no json here '') = None
   \<and> \<not> (\<exists>i j. i < j \<and> j < length '' no json here ''
            \<and> '' no json here '' ! i = CHR ''{'' \<and> '' no json here '' ! j = CHR ''}'')
   \<and> extract_json_from_text '' no json here '' = strip '' no json here ''"
proof -
  have h1: "first_markdown markdown_patterns (strip '' no json here '') = None"
    by (rule no_fence_no_markdown) simp
  have h2: "\<not> (\<exists>i j. i < j \<and> j < length '' no json here ''
            \<and> '' no json here '' ! i = CHR ''{'' \<and> '' no json here '' ! j = CHR ''}'')"
    by (rule no_char_no_pair) simp
  from h1 h2 show ?thesis using extract_json_passthrough [of "'' no json here ''"] by blast
qed

text \<open>
  The claim as it is worded, "returns the raw input text unchanged", fails on an input
  with whitespace around it: both strategies fail on \<open>" no json here "\<close> and the result
  is \<open>"no json here"\<close>.
\<close>

lemma strip_example: "strip '' no json here '' = ''no json here''"
  by (simp add: strip_def is_space_def)

lemma passthrough_example: "extract_json_from_text '' no json here '' = ''no json here''"
proof -
  have h1: "first_markdown markdown_patterns (strip '' no json here '') = None"
    by (rule no_fence_no_markdown) simp
  have h2: "str_find ''no json here'' CHR ''{'' = None"
    by (simp add: str_find_def)
  show ?thesis
    using h1 h2 by (simp add: extract_json_from_text_def startswith_def strip_example)
qed

theorem extract_json_raw_counterexample:
  "first_markdown markdown_patterns (strip '' no json here '') = None
   \<and> CHR ''{'' \<notin> set '' no json here ''
   \<and> extract_json_from_text '' no json here '' = ''no json here''
   \<and> extract_json_from_text '' no json here '' \<noteq> '' no json here ''"
proof -
  have h1: "first_markdown markdown_patterns (strip '' no json here '') = None"
    by (rule no_fence_no_markdown) simp
  show ?thesis using h1 passthrough_example by simp
qed

section \<open>Exit statuses of the command line entry point\<close>

text \<open>
  Claim C9. \<open>main\<close> maps each kind of error raised by its body to a fixed exit status:
  \<open>SecurityError\<close> 2, \<open>ValidationError\<close> 3, \<open>ConfigError\<close> 4, \<open>TranslationError\<close> 5,
  \<open>ConstructionError\<close> 6, \<open>ExecError\<close> 7, \<open>KeyboardInterrupt\<close> 130, and 1 for any other
  \<open>MediaLLMError\<close>, for an \<open>OSError\<close> and for any other \<open>Exception\<close>.
\<close>

theorem main_exit_codes:
  "main (Body_raises SecurityError) = Sys_exit 2
   \<and> main (Body_raises ValidationError) = Sys_exit 3
   \<and> main (Body_raises ConfigError) = Sys_exit 4
   \<and> main (Body_raises TranslationError) = Sys_exit 5
   \<and> main (Body_raises ConstructionError) = Sys_exit 6
   \<and> main (Body_raises ExecError) = Sys_exit 7
   \<and> main (Body_raises KeyboardInterrupt) = Sys_exit 130
   \<and> main (Body_raises MediaLLMError) = Sys_exit 1
   \<and> main (Body_raises (Other_media_error x)) = Sys_exit 1
   \<and> main (Body_raises OSError) = Sys_exit 1
   \<and> main (Body_raises (Other_os_error y)) = Sys_exit 1
   \<and> main (Body_raises Exception) = Sys_exit 1
   \<and> main (Body_raises (Other_exception z)) = Sys_exit 1"
  by (simp add: main_handlers_def isinstance_def)

section \<open>The duration read from the probe output\<close>

lemma not_a_number: "\<not> is_float_literal ''N/A''"
  by (simp add: is_float_literal_def float_strip_def is_float_space_def drop_sign_def
      floatnumber_def digitpart_def is_digit_def fraction_ok_def ascii_lower_def)

text \<open>
  Claim C8 says that \<open>_ffprobe_duration\<close> returns \<open>None\<close> both when \<open>format.duration\<close>
  is absent and when it is present but not numeric. The first half holds
  (\<open>ffprobe_duration_absent\<close> below). For the second half the code calls \<open>float\<close> on the
  value inside a \<open>try\<close> whose \<open>except\<close> clauses catch \<open>TimeoutExpired\<close>,
  \<open>JSONDecodeError\<close>, \<open>CalledProcessError\<close> and \<open>OSError\<close>, none of which is the
  \<open>ValueError\<close> that \<open>float\<close> raises: on the probe output
  \<open>{"format": {"duration": "N/A"}}\<close> the function raises instead of returning \<open>None\<close>.
\<close>

theorem ffprobe_duration_non_numeric_raises:
  "ffprobe_duration True
     (\<lambda>stdout. Some (JObj [(''format'', JObj [(''duration'', JStr ''N/A'')])]))
     (Completed ''{\"format\": {\"duration\": \"N/A\"}}'')
   = Inl ValueError"
  by (simp add: ffprobe_duration_def MAX_FFPROBE_OUTPUT_SIZE_def members_def not_a_number)

lemma ffprobe_duration_absent:
  "loads stdout = Some (JObj doc) \<Longrightarrow> length stdout \<le> MAX_FFPROBE_OUTPUT_SIZE
   \<Longrightarrow> members doc ''format'' = None
       \<or> (\<exists>fmt. members doc ''format'' = Some (JObj fmt) \<and> members fmt ''duration'' = None)
   \<Longrightarrow> ffprobe_duration True loads (Completed stdout) = Inr None"
  by (auto simp: ffprobe_duration_def members_def)

lemma ffprobe_duration_string:
  "loads stdout = Some (JObj doc) \<Longrightarrow> length stdout \<le> MAX_FFPROBE_OUTPUT_SIZE
   \<Longrightarrow> members doc ''format'' = Some (JObj fmt) \<Longrightarrow> members fmt ''duration'' = Some (JStr s)
   \<Longrightarrow> \<not> is_float_literal s
   \<Longrightarrow> ffprobe_duration True loads (Completed stdout) = Inl ValueError"
  by (auto simp: ffprobe_duration_def)

section \<open>Overwrite protection before execution\<close>

lemma single_not_cancelled:
  "Cancelled_file_conflicts \<notin> set (fst (execute_single_command m cmd i n))"
  by (auto simp: execute_single_command_def split: option.splits process_result.splits)

lemma run_all_not_cancelled:
  "Cancelled_file_conflicts \<notin> set (fst (run_all m total_cmds i successful commands))"
proof (induction commands arbitrary: i successful)
  case Nil
  show ?case by simp
next
  case (Cons cmd rest)
  obtain evs r where e: "execute_single_command m cmd i total_cmds = (evs, r)"
    by (cases "execute_single_command m cmd i total_cmds")
  with single_not_cancelled [of m cmd i total_cmds] have n: "Cancelled_file_conflicts \<notin> set evs"
    by simp
  show ?case
  proof (cases r)
    case (Returned u)
    obtain evs' r' where e': "run_all m total_cmds (i + 1) (successful + 1) rest = (evs', r')"
      by (cases "run_all m total_cmds (i + 1) (successful + 1) rest")
    with Cons.IH [of "i + 1" "successful + 1"] have "Cancelled_file_conflicts \<notin> set evs'"
      by simp
    with n e e' Returned show ?thesis by simp
  next
    case (Raised_ExecError msg)
    with n e show ?thesis by simp
  next
    case (Raised_other x)
    with n e show ?thesis by simp
  qed
qed

lemma execute_commands_not_cancelled:
  "Cancelled_file_conflicts \<notin> set (fst (execute_commands m commands assume_yes))"
  using run_all_not_cancelled [of m "length commands" 1 0 commands]
  by (auto simp: execute_commands_def check_overwrite_protection_def Let_def split: prod.splits ended.splits)

lemma overwrite_happens:
  "detect_overwrites (\<lambda>p. p = ''out.mp4'') [[''ffmpeg'', ''-i'', ''in.mp4'', ''out.mp4'']]
   \<and> execute_commands \<lparr>on_path = (\<lambda>exe. True), run_process = (\<lambda>cmd t. Exited 0 [])\<rparr>
        [[''ffmpeg'', ''-i'', ''in.mp4'', ''out.mp4'']] False
      = ([Starting 1, Executing 1 1, Ran [''ffmpeg'', ''-i'', ''in.mp4'', ''out.mp4''],
          Completed_command 1, Summary 1 1], Returned 0)"
proof -
  have s: "is_command_secure [''ffmpeg'', ''-i'', ''in.mp4'', ''out.mp4'']"
    by (simp add: secure_eval)
  show ?thesis
    by (simp add: detect_overwrites_def extract_output_path_def execute_commands_def
        check_overwrite_protection_def execute_single_command_def validate_command_def s)
qed

text \<open>
  Claim C10. \<open>check_overwrite_protection\<close> returns \<open>True\<close> for every list of commands and
  every \<open>assume_yes\<close>, so \<open>_execute_commands\<close> never takes its "cancelled due to file
  conflicts" branch, whatever the machine does; and this although \<open>detect_overwrites\<close> can
  report an overwrite: with \<open>out.mp4\<close> existing, the command that writes \<open>out.mp4\<close> is run
  straight away.
\<close>

theorem overwrite_never_blocks:
  "check_overwrite_protection commands assume_yes = True
   \<and> Cancelled_file_conflicts \<notin> set (fst (execute_commands m commands assume_yes))
   \<and> detect_overwrites (\<lambda>p. p = ''out.mp4'') [[''ffmpeg'', ''-i'', ''in.mp4'', ''out.mp4'']]
   \<and> execute_commands \<lparr>on_path = (\<lambda>exe. True), run_process = (\<lambda>cmd t. Exited 0 [])\<rparr>
        [[''ffmpeg'', ''-i'', ''in.mp4'', ''out.mp4'']] False
      = ([Starting 1, Executing 1 1, Ran [''ffmpeg'', ''-i'', ''in.mp4'', ''out.mp4''],
          Completed_command 1, Summary 1 1], Returned 0)"
  using execute_commands_not_cancelled overwrite_happens
  by (simp add: check_overwrite_protection_def)

section \<open>The retry loop\<close>

subsection \<open>One round of validation\<close>

lemma validate_batch_events:
  "validate_batch w prompt attempt cmds = (evs, r) \<Longrightarrow> e \<in> set evs
   \<Longrightarrow> attempt_of e = attempt \<and> \<not> is_executed e"
proof (induction cmds arbitrary: evs r)
  case Nil
  then show ?case by simp
next
  case (Cons cmd rest)
  obtain ok msg where v:
    "validate_ffmpeg_command (path_exists_at w attempt) (quick_check_at w attempt) cmd = (ok, msg)"
    by (cases "validate_ffmpeg_command (path_exists_at w attempt) (quick_check_at w attempt) cmd")
  obtain evs' r' where b: "validate_batch w prompt attempt rest = (evs', r')"
    by (cases "validate_batch w prompt attempt rest")
  have ih: "e \<in> set evs' \<Longrightarrow> attempt_of e = attempt \<and> \<not> is_executed e"
    using Cons.IH [OF b] by blast
  from Cons.prems v b ih show ?case
    by (auto split: if_splits option.splits)
qed

lemma validate_batch_regenerated:
  "validate_batch w prompt attempt cmds = (evs, r) \<Longrightarrow> Regenerated a msg \<in> set evs
   \<Longrightarrow> a < MAX_RETRY_ATTEMPTS"
proof (induction cmds arbitrary: evs r)
  case Nil
  then show ?case by simp
next
  case (Cons cmd rest)
  obtain ok m where v:
    "validate_ffmpeg_command (path_exists_at w attempt) (quick_check_at w attempt) cmd = (ok, m)"
    by (cases "validate_ffmpeg_command (path_exists_at w attempt) (quick_check_at w attempt) cmd")
  obtain evs' r' where b: "validate_batch w prompt attempt rest = (evs', r')"
    by (cases "validate_batch w prompt attempt rest")
  have ih: "Regenerated a msg \<in> set evs' \<Longrightarrow> a < MAX_RETRY_ATTEMPTS"
    using Cons.IH [OF b] by blast
  from Cons.prems v b ih show ?case
    by (auto split: if_splits option.splits)
qed

lemma validate_batch_all_valid:
  "validate_batch w prompt attempt cmds = (evs, All_scanned) \<Longrightarrow> attempt < MAX_RETRY_ATTEMPTS
   \<Longrightarrow> cmd \<in> set cmds
   \<Longrightarrow> fst (validate_ffmpeg_command (path_exists_at w attempt) (quick_check_at w attempt) cmd)"
proof (induction cmds arbitrary: evs)
  case Nil
  then show ?case by simp
next
  case (Cons c rest)
  obtain ok m where v:
    "validate_ffmpeg_command (path_exists_at w attempt) (quick_check_at w attempt) c = (ok, m)"
    by (cases "validate_ffmpeg_command (path_exists_at w attempt) (quick_check_at w attempt) c")
  obtain evs' r' where b: "validate_batch w prompt attempt rest = (evs', r')"
    by (cases "validate_batch w prompt attempt rest")
  from Cons.prems(1,2) v b have ok: "ok" and r': "r' = All_scanned"
    by (auto split: if_splits option.splits)
  show ?case
  proof (cases "cmd = c")
    case True
    with v ok show ?thesis by simp
  next
    case False
    with Cons.prems(3) have "cmd \<in> set rest" by simp
    with b r' Cons.prems(2) show ?thesis using Cons.IH by blast
  qed
qed

subsection \<open>The attempts\<close>

text \<open>The shapes the result of one attempt can take.\<close>

lemma attempts_step:
  assumes "attempts w prompt commands (attempt # later) cur = (evs, r)"
  obtains
    (gave_up) evs0 where "validate_batch w prompt attempt cur = (evs0, Gave_up)"
      "evs = evs0" "r = Returned (1, commands)"
  | (broke) evs0 new evs' where "validate_batch w prompt attempt cur = (evs0, Broke new)"
      "attempts w prompt commands later new = (evs', r)" "evs = evs0 @ evs'"
  | (exit) evs0 c where "validate_batch w prompt attempt cur = (evs0, All_scanned)"
      "executor_func w attempt cur = Exit_code c"
      "evs = evs0 @ [Executed attempt cur]" "r = Returned (c, cur)"
  | (other) evs0 x where "validate_batch w prompt attempt cur = (evs0, All_scanned)"
      "executor_func w attempt cur = Other_error x"
      "evs = evs0 @ [Executed attempt cur]" "r = Raised_other x"
  | (last_fail) evs0 msg where "validate_batch w prompt attempt cur = (evs0, All_scanned)"
      "executor_func w attempt cur = Exec_error msg" "\<not> attempt < MAX_RETRY_ATTEMPTS"
      "evs = evs0 @ [Executed attempt cur]" "r = Raised_ExecError msg"
  | (no_regen) evs0 msg where "validate_batch w prompt attempt cur = (evs0, All_scanned)"
      "executor_func w attempt cur = Exec_error msg" "attempt < MAX_RETRY_ATTEMPTS"
      "regenerate_commands w attempt prompt msg = None"
      "evs = evs0 @ [Executed attempt cur, Regenerated attempt msg]" "r = Raised_ExecError msg"
  | (retry) evs0 msg new evs' where "validate_batch w prompt attempt cur = (evs0, All_scanned)"
      "executor_func w attempt cur = Exec_error msg" "attempt < MAX_RETRY_ATTEMPTS"
      "regenerate_commands w attempt prompt msg = Some new"
      "attempts w prompt commands later new = (evs', r)"
      "evs = evs0 @ [Executed attempt cur, Regenerated attempt msg] @ evs'"
proof -
  obtain evs0 sc where vb: "validate_batch w prompt attempt cur = (evs0, sc)"
    by (cases "validate_batch w prompt attempt cur")
  show ?thesis
  proof (cases sc)
    case Gave_up
    with assms vb show ?thesis using gave_up by simp
  next
    case (Broke new)
    obtain evs' r' where "attempts w prompt commands later new = (evs', r')"
      by (cases "attempts w prompt commands later new")
    with assms vb Broke show ?thesis using broke by simp
  next
    case All_scanned
    show ?thesis
    proof (cases "executor_func w attempt cur")
      case (Exit_code c)
      with assms vb All_scanned show ?thesis using exit by simp
    next
      case (Other_error x)
      with assms vb All_scanned show ?thesis using other by simp
    next
      case (Exec_error msg)
      show ?thesis
      proof (cases "attempt < MAX_RETRY_ATTEMPTS")
        case False
        with assms vb All_scanned Exec_error show ?thesis using last_fail by simp
      next
        case True
        show ?thesis
        proof (cases "regenerate_commands w attempt prompt msg")
          case None
          with assms vb All_scanned Exec_error True show ?thesis using no_regen by simp
        next
          case (Some new)
          obtain evs' r' where "attempts w prompt commands later new = (evs', r')"
            by (cases "attempts w prompt commands later new")
          with assms vb All_scanned Exec_error True Some show ?thesis using retry by simp
        qed
      qed
    qed
  qed
qed

lemma attempts_numbers:
  "attempts w prompt commands as cur = (evs, r) \<Longrightarrow> e \<in> set evs \<Longrightarrow> attempt_of e \<in> set as"
proof (induction as arbitrary: cur evs r)
  case Nil
  then show ?case by simp
next
  case (Cons attempt later)
  from Cons.prems(1) show ?case
  proof (cases rule: attempts_step)
    case (gave_up evs0)
    with Cons.prems(2) validate_batch_events show ?thesis by fastforce
  next
    case (broke evs0 new evs')
    with Cons.prems(2) validate_batch_events [OF broke(1)] Cons.IH [OF broke(2)]
    show ?thesis by auto
  next
    case (exit evs0 c)
    with Cons.prems(2) validate_batch_events [OF exit(1)] show ?thesis by auto
  next
    case (other evs0 x)
    with Cons.prems(2) validate_batch_events [OF other(1)] show ?thesis by auto
  next
    case (last_fail evs0 msg)
    with Cons.prems(2) validate_batch_events [OF last_fail(1)] show ?thesis by auto
  next
    case (no_regen evs0 msg)
    with Cons.prems(2) validate_batch_events [OF no_regen(1)] show ?thesis by auto
  next
    case (retry evs0 msg new evs')
    with Cons.prems(2) validate_batch_events [OF retry(1)] Cons.IH [OF retry(5)]
    show ?thesis by auto
  qed
qed

lemma no_execution_in_validation:
  "validate_batch w prompt attempt cmds = (evs, r) \<Longrightarrow> filter is_executed evs = []"
  using validate_batch_events by (fastforce simp: filter_empty_conv)

lemma attempts_executions:
  "attempts w prompt commands as cur = (evs, r)
   \<Longrightarrow> length (filter is_executed evs) \<le> length as"
proof (induction as arbitrary: cur evs r)
  case Nil
  then show ?case by simp
next
  case (Cons attempt later)
  from Cons.prems(1) show ?case
  proof (cases rule: attempts_step)
    case (gave_up evs0)
    with no_execution_in_validation [OF gave_up(1)] show ?thesis by simp
  next
    case (broke evs0 new evs')
    with no_execution_in_validation [OF broke(1)] Cons.IH [OF broke(2)] show ?thesis by simp
  next
    case (exit evs0 c)
    with no_execution_in_validation [OF exit(1)] show ?thesis by simp
  next
    case (other evs0 x)
    with no_execution_in_validation [OF other(1)] show ?thesis by simp
  next
    case (last_fail evs0 msg)
    with no_execution_in_validation [OF last_fail(1)] show ?thesis by simp
  next
    case (no_regen evs0 msg)
    with no_execution_in_validation [OF no_regen(1)] show ?thesis by simp
  next
    case (retry evs0 msg new evs')
    with no_execution_in_validation [OF retry(1)] Cons.IH [OF retry(5)] show ?thesis by simp
  qed
qed

lemma attempts_regenerated:
  "attempts w prompt commands as cur = (evs, r) \<Longrightarrow> Regenerated a msg \<in> set evs
   \<Longrightarrow> a < MAX_RETRY_ATTEMPTS"
proof (induction as arbitrary: cur evs r)
  case Nil
  then show ?case by simp
next
  case (Cons attempt later)
  from Cons.prems(1) show ?case
  proof (cases rule: attempts_step)
    case (gave_up evs0)
    with Cons.prems(2) validate_batch_regenerated show ?thesis by blast
  next
    case (broke evs0 new evs')
    with Cons.prems(2) validate_batch_regenerated [OF broke(1)] Cons.IH [OF broke(2)]
    show ?thesis by auto
  next
    case (exit evs0 c)
    with Cons.prems(2) validate_batch_regenerated [OF exit(1)] show ?thesis by auto
  next
    case (other evs0 x)
    with Cons.prems(2) validate_batch_regenerated [OF other(1)] show ?thesis by auto
  next
    case (last_fail evs0 m)
    with Cons.prems(2) validate_batch_regenerated [OF last_fail(1)] show ?thesis by auto
  next
    case (no_regen evs0 m)
    with Cons.prems(2) validate_batch_regenerated [OF no_regen(1)] show ?thesis by auto
  next
    case (retry evs0 m new evs')
    with Cons.prems(2) validate_batch_regenerated [OF retry(1)] Cons.IH [OF retry(5)]
    show ?thesis by auto
  qed
qed

lemma attempts_error_propagates:
  "attempts w prompt commands as cur = (evs, r) \<Longrightarrow> Executed a cs \<in> set evs
   \<Longrightarrow> executor_func w a cs = Exec_error msg
   \<Longrightarrow> \<not> a < MAX_RETRY_ATTEMPTS \<or> regenerate_commands w a prompt msg = None
   \<Longrightarrow> r = Raised_ExecError msg"
proof (induction as arbitrary: cur evs r)
  case Nil
  then show ?case by simp
next
  case (Cons attempt later)
  note ex = Cons.prems(2) and err = Cons.prems(3) and fin = Cons.prems(4)
  have quiet: "\<And>evs0 sc. validate_batch w prompt attempt cur = (evs0, sc)
    \<Longrightarrow> Executed a cs \<notin> set evs0"
    using validate_batch_events by fastforce
  from Cons.prems(1) show ?case
  proof (cases rule: attempts_step)
    case (gave_up evs0)
    with ex quiet show ?thesis by blast
  next
    case (broke evs0 new evs')
    with ex quiet [OF broke(1)] have "Executed a cs \<in> set evs'" by simp
    then show ?thesis using Cons.IH [OF broke(2)] err fin by blast
  next
    case (exit evs0 c)
    with ex quiet [OF exit(1)] err show ?thesis by auto
  next
    case (other evs0 x)
    with ex quiet [OF other(1)] err show ?thesis by auto
  next
    case (last_fail evs0 m)
    with ex quiet [OF last_fail(1)] err show ?thesis by auto
  next
    case (no_regen evs0 m)
    with ex quiet [OF no_regen(1)] err show ?thesis by auto
  next
    case (retry evs0 m new evs')
    with ex quiet [OF retry(1)]
    consider "a = attempt \<and> cs = cur" | "Executed a cs \<in> set evs'" by auto
    then show ?thesis
    proof cases
      case 1
      with err retry(2,3,4) fin show ?thesis by simp
    next
      case 2
      then show ?thesis using Cons.IH [OF retry(5)] err fin by blast
    qed
  qed
qed

lemma attempts_validated_before_last:
  "attempts w prompt commands as cur = (evs, r) \<Longrightarrow> Executed a cs \<in> set evs
   \<Longrightarrow> a < MAX_RETRY_ATTEMPTS \<Longrightarrow> cmd \<in> set cs
   \<Longrightarrow> fst (validate_ffmpeg_command (path_exists_at w a) (quick_check_at w a) cmd)"
proof (induction as arbitrary: cur evs r)
  case Nil
  then show ?case by simp
next
  case (Cons attempt later)
  note ex = Cons.prems(2) and lt = Cons.prems(3) and mem = Cons.prems(4)
  have quiet: "\<And>evs0 sc. validate_batch w prompt attempt cur = (evs0, sc)
    \<Longrightarrow> Executed a cs \<notin> set evs0"
    using validate_batch_events by fastforce
  have here: "\<And>evs0. validate_batch w prompt attempt cur = (evs0, All_scanned)
    \<Longrightarrow> a = attempt \<and> cs = cur
    \<Longrightarrow> fst (validate_ffmpeg_command (path_exists_at w a) (quick_check_at w a) cmd)"
    using validate_batch_all_valid lt mem by blast
  from Cons.prems(1) show ?case
  proof (cases rule: attempts_step)
    case (gave_up evs0)
    with ex quiet show ?thesis by blast
  next
    case (broke evs0 new evs')
    with ex quiet [OF broke(1)] have "Executed a cs \<in> set evs'" by simp
    then show ?thesis using Cons.IH [OF broke(2)] lt mem by blast
  next
    case (exit evs0 c)
    with ex quiet [OF exit(1)] have "a = attempt \<and> cs = cur" by auto
    then show ?thesis using here [OF exit(1)] by blast
  next
    case (other evs0 x)
    with ex quiet [OF other(1)] have "a = attempt \<and> cs = cur" by auto
    then show ?thesis using here [OF other(1)] by blast
  next
    case (last_fail evs0 m)
    with ex quiet [OF last_fail(1)] have "a = attempt \<and> cs = cur" by auto
    then show ?thesis using here [OF last_fail(1)] by blast
  next
    case (no_regen evs0 m)
    with ex quiet [OF no_regen(1)] have "a = attempt \<and> cs = cur" by auto
    then show ?thesis using here [OF no_regen(1)] by blast
  next
    case (retry evs0 m new evs')
    with ex quiet [OF retry(1)]
    consider "a = attempt \<and> cs = cur" | "Executed a cs \<in> set evs'" by auto
    then show ?thesis
    proof cases
      case 1
      then show ?thesis using here [OF retry(1)] by blast
    next
      case 2
      then show ?thesis using Cons.IH [OF retry(5)] lt mem by blast
    qed
  qed
qed

lemma attempt_numbers: "[1..<MAX_RETRY_ATTEMPTS + 1] = [1, 2, 3]"
  by (simp add: MAX_RETRY_ATTEMPTS_def upt_rec)

text \<open>
  Claim C5. \<open>execute_with_retry\<close> makes at most \<open>MAX_RETRY_ATTEMPTS = 3\<close> attempts: every
  event belongs to attempt 1, 2 or 3 and the executor is called at most three times. The
  commands are regenerated only in an attempt whose number is below the bound. When the
  executor raises an \<open>ExecError\<close> in the last attempt, or in an earlier one after which the
  regeneration gives nothing, that \<open>ExecError\<close> is what the call raises.
\<close>

theorem retry_bounded_and_error_propagates:
  "MAX_RETRY_ATTEMPTS = 3
   \<and> (\<forall>e \<in> set (fst (execute_with_retry w prompt commands)).
         1 \<le> attempt_of e \<and> attempt_of e \<le> MAX_RETRY_ATTEMPTS)
   \<and> length (filter is_executed (fst (execute_with_retry w prompt commands)))
       \<le> MAX_RETRY_ATTEMPTS
   \<and> (\<forall>a msg. Regenerated a msg \<in> set (fst (execute_with_retry w prompt commands))
         \<longrightarrow> a < MAX_RETRY_ATTEMPTS)
   \<and> (\<forall>a cs msg. Executed a cs \<in> set (fst (execute_with_retry w prompt commands))
         \<and> executor_func w a cs = Exec_error msg
         \<and> (a = MAX_RETRY_ATTEMPTS \<or> regenerate_commands w a prompt msg = None)
         \<longrightarrow> snd (execute_with_retry w prompt commands) = Raised_ExecError msg)"
proof -
  obtain evs r where run: "attempts w prompt commands [1, 2, 3] commands = (evs, r)"
    by (cases "attempts w prompt commands [1, 2, 3] commands")
  have ewr: "execute_with_retry w prompt commands = (evs, r)"
    unfolding execute_with_retry_def attempt_numbers by (rule run)
  have numbers: "\<forall>e \<in> set evs. 1 \<le> attempt_of e \<and> attempt_of e \<le> MAX_RETRY_ATTEMPTS"
  proof
    fix e assume "e \<in> set evs"
    with run have "attempt_of e \<in> set [1, 2, 3]" by (rule attempts_numbers)
    then show "1 \<le> attempt_of e \<and> attempt_of e \<le> MAX_RETRY_ATTEMPTS"
      by (auto simp: MAX_RETRY_ATTEMPTS_def)
  qed
  have count: "length (filter is_executed evs) \<le> MAX_RETRY_ATTEMPTS"
    using attempts_executions [OF run] by (simp add: MAX_RETRY_ATTEMPTS_def)
  have regen: "\<forall>a msg. Regenerated a msg \<in> set evs \<longrightarrow> a < MAX_RETRY_ATTEMPTS"
    using attempts_regenerated [OF run] by blast
  have raised: "\<forall>a cs msg. Executed a cs \<in> set evs \<and> executor_func w a cs = Exec_error msg
         \<and> (a = MAX_RETRY_ATTEMPTS \<or> regenerate_commands w a prompt msg = None)
         \<longrightarrow> r = Raised_ExecError msg"
  proof (intro allI impI)
    fix a cs msg
    assume h: "Executed a cs \<in> set evs \<and> executor_func w a cs = Exec_error msg
         \<and> (a = MAX_RETRY_ATTEMPTS \<or> regenerate_commands w a prompt msg = None)"
    then have "\<not> a < MAX_RETRY_ATTEMPTS \<or> regenerate_commands w a prompt msg = None" by auto
    with h show "r = Raised_ExecError msg"
      using attempts_error_propagates [OF run] by blast
  qed
  from numbers count regen raised show ?thesis
    by (simp add: ewr MAX_RETRY_ATTEMPTS_def)
qed

text \<open>
  A run in which every execution fails and every regeneration succeeds: three attempts,
  two regenerations, and the third \<open>ExecError\<close> is raised.
\<close>

lemmas retry_eval =
  execute_with_retry_def attempt_numbers MAX_RETRY_ATTEMPTS_def validate_ffmpeg_command_def
  check_input_files_def pseudo_input_def startswith_def build_quick_validation_cmd_def
  last_input_idx_def upt_rec

lemma failing_run:
  "execute_with_retry failing_world ''to mp4'' [[''ffmpeg'', ''-i'', ''in.mp4'', ''out.mp4'']]
   = ([Validated 1 [''ffmpeg'', ''-i'', ''in.mp4'', ''out.mp4''] True,
       Executed 1 [[''ffmpeg'', ''-i'', ''in.mp4'', ''out.mp4'']],
       Regenerated 1 ''Unknown encoder'',
       Validated 2 [''ffmpeg'', ''-i'', ''in.mp4'', ''out.mp4''] True,
       Executed 2 [[''ffmpeg'', ''-i'', ''in.mp4'', ''out.mp4'']],
       Regenerated 2 ''Unknown encoder'',
       Validated 3 [''ffmpeg'', ''-i'', ''in.mp4'', ''out.mp4''] True,
       Executed 3 [[''ffmpeg'', ''-i'', ''in.mp4'', ''out.mp4'']]],
      Raised_ExecError ''Unknown encoder'')"
  by (simp add: failing_world_def retry_eval)

theorem retry_bounded_and_error_propagates_witness:
  "Executed 3 [[''ffmpeg'', ''-i'', ''in.mp4'', ''out.mp4'']]
     \<in> set (fst (execute_with_retry failing_world ''to mp4'' [[''ffmpeg'', ''-i'', ''in.mp4'', ''out.mp4'']]))
   \<and> executor_func failing_world 3 [[''ffmpeg'', ''-i'', ''in.mp4'', ''out.mp4'']]
       = Exec_error ''Unknown encoder''
   \<and> 3 = MAX_RETRY_ATTEMPTS
   \<and> snd (execute_with_retry failing_world ''to mp4'' [[''ffmpeg'', ''-i'', ''in.mp4'', ''out.mp4'']])
       = Raised_ExecError ''Unknown encoder''
   \<and> Regenerated 2 ''Unknown encoder''
       \<in> set (fst (execute_with_retry failing_world ''to mp4'' [[''ffmpeg'', ''-i'', ''in.mp4'', ''out.mp4'']]))
   \<and> 2 < MAX_RETRY_ATTEMPTS"
proof -
  have h1: "Executed 3 [[''ffmpeg'', ''-i'', ''in.mp4'', ''out.mp4'']]
     \<in> set (fst (execute_with_retry failing_world ''to mp4'' [[''ffmpeg'', ''-i'', ''in.mp4'', ''out.mp4'']]))"
    by (simp add: failing_run)
  have h2: "executor_func failing_world 3 [[''ffmpeg'', ''-i'', ''in.mp4'', ''out.mp4'']]
       = Exec_error ''Unknown encoder''"
    by (simp add: failing_world_def)
  have h3: "3 = MAX_RETRY_ATTEMPTS" by (simp add: MAX_RETRY_ATTEMPTS_def)
  have h4: "Regenerated 2 ''Unknown encoder''
       \<in> set (fst (execute_with_retry failing_world ''to mp4'' [[''ffmpeg'', ''-i'', ''in.mp4'', ''out.mp4'']]))"
    by (simp add: failing_run)
  note t = retry_bounded_and_error_propagates
    [of failing_world "''to mp4''" "[[''ffmpeg'', ''-i'', ''in.mp4'', ''out.mp4'']]"]
  from t h1 h2 h3
  have c1: "snd (execute_with_retry failing_world ''to mp4'' [[''ffmpeg'', ''-i'', ''in.mp4'', ''out.mp4'']])
       = Raised_ExecError ''Unknown encoder''"
    by blast
  from t h4 have c2: "2 < MAX_RETRY_ATTEMPTS" by blast
  from h1 h2 h3 h4 c1 c2 show ?thesis by blast
qed

text \<open>
  Claim C4 says that in every attempt, the last one included, the executor is called only
  if every command of the batch has passed \<open>validate_ffmpeg_command\<close> in that attempt.
  In attempts 1 and 2 the code does so (\<open>attempts_validated_before_last\<close>). In the last
  attempt the \<open>break\<close> that leaves the validation loop sits inside
  \<open>if attempt < MAX_RETRY_ATTEMPTS\<close>, so a command that fails validation does not stop
  the loop, its \<open>else\<close> branch runs and the executor is called with the unvalidated batch.
  Here the input file is missing in every attempt and the language model returns the same
  plan: attempt 3 records the failed validation and then the execution, and the call
  returns the executor's status 0.
\<close>

theorem last_attempt_executes_unvalidated:
  "execute_with_retry missing_input_world ''to mp4'' [[''ffmpeg'', ''-i'', ''missing.mp4'', ''out.mp4'']]
   = ([Validated 1 [''ffmpeg'', ''-i'', ''missing.mp4'', ''out.mp4''] False,
       Regenerated 1 ''Input file(s) not found: missing.mp4'',
       Validated 2 [''ffmpeg'', ''-i'', ''missing.mp4'', ''out.mp4''] False,
       Regenerated 2 ''Input file(s) not found: missing.mp4'',
       Validated 3 [''ffmpeg'', ''-i'', ''missing.mp4'', ''out.mp4''] False,
       Executed 3 [[''ffmpeg'', ''-i'', ''missing.mp4'', ''out.mp4'']]],
      Returned (0, [[''ffmpeg'', ''-i'', ''missing.mp4'', ''out.mp4'']]))"
  by (simp add: missing_input_world_def retry_eval)

section \<open>The repaired response\<close>

subsection \<open>What each step of the function leaves in a field\<close>

lemma clean_field_frame: "k \<noteq> field \<Longrightarrow> clean_field clean field d k = d k"
  by (auto simp: clean_field_def split: option.splits json.splits)

lemma sanitize_frame:
  "k \<notin> {''output'', ''subtitle_path'', ''overlay_path'', ''inputs''}
   \<Longrightarrow> sanitize_path_values clean d k = d k"
  by (auto simp: sanitize_path_values_def Let_def clean_field_frame
      split: option.splits json.splits)

lemma sanitize_inputs:
  "sanitize_path_values clean d ''inputs''
   = (case d ''inputs'' of
        Some (JArr xs) \<Rightarrow> Some (JArr (map (clean_input clean) xs))
      | v \<Rightarrow> v)"
  by (auto simp: sanitize_path_values_def Let_def clean_field_frame
      split: option.splits json.splits)

lemma init_list_frame: "k \<noteq> field \<Longrightarrow> init_list_field field d k = d k"
  by (auto simp: init_list_field_def split: option.splits)

lemma init_list_value: "init_list_field field d field = Some (JArr (as_list (d field)))"
proof (cases "d field")
  case None
  then show ?thesis by (simp add: init_list_field_def)
next
  case (Some v)
  then show ?thesis by (cases v) (simp_all add: init_list_field_def)
qed

lemma clean_list_frame: "k \<noteq> field \<Longrightarrow> clean_list_field field d k = d k"
  by (auto simp: clean_list_field_def split: option.splits json.splits)

lemma clean_list_kept:
  "d field = Some (JArr xs)
   \<Longrightarrow> clean_list_field field d field = Some (JArr (filter kept_item xs))"
  by (simp add: clean_list_field_def)

subsection \<open>The dictionary handed to the helpers\<close>

lemma prepared_action:
  "prepared_response h cps data q ws ''action''
   = (if get_truthy (or_empty data) ''action'' then or_empty data ''action''
      else Some (JStr (infer_action_from_query h q)))"
  by (simp add: prepared_response_def Let_def clean_list_frame init_list_frame
      get_truthy_def sanitize_frame)

lemma prepared_inputs:
  "prepared_response h cps data q ws ''inputs''
   = Some (JArr (case or_empty data ''inputs'' of
                   Some (JArr xs) \<Rightarrow> map (clean_input (cps ws)) xs
                 | v \<Rightarrow> as_list v))"
proof -
  define r1 where "r1 = sanitize_path_values (cps ws) (or_empty data)"
  define r2 where "r2 = (if get_truthy r1 ''action'' then r1
                          else r1(''action'' \<mapsto> JStr (infer_action_from_query h q)))"
  have "prepared_response h cps data q ws ''inputs'' = init_list_field ''inputs'' r2 ''inputs''"
    by (simp add: prepared_response_def Let_def clean_list_frame init_list_frame r2_def r1_def)
  also have "\<dots> = Some (JArr (as_list (r2 ''inputs'')))"
    by (rule init_list_value)
  also have "r2 ''inputs'' = r1 ''inputs''"
    by (simp add: r2_def)
  also have "r1 ''inputs'' = (case or_empty data ''inputs'' of
                               Some (JArr xs) \<Rightarrow> Some (JArr (map (clean_input (cps ws)) xs))
                             | v \<Rightarrow> v)"
    unfolding r1_def by (rule sanitize_inputs)
  finally show ?thesis
    by (auto split: option.splits json.splits)
qed

lemma prepared_cleaned:
  assumes "field = ''filters'' \<or> field = ''extra_flags''"
  shows "prepared_response h cps data q ws field
         = Some (JArr (filter kept_item (as_list (or_empty data field))))"
proof -
  define r1 where "r1 = sanitize_path_values (cps ws) (or_empty data)"
  define r2 where "r2 = (if get_truthy r1 ''action'' then r1
                          else r1(''action'' \<mapsto> JStr (infer_action_from_query h q)))"
  define r3 where "r3 = fold init_list_field [''inputs'', ''filters'', ''extra_flags''] r2"
  have r2: "r2 field = or_empty data field"
    using assms by (auto simp: r2_def r1_def sanitize_frame)
  have r3: "r3 field = Some (JArr (as_list (or_empty data field)))"
    using assms init_list_value [of "''filters''" "init_list_field ''inputs'' r2"]
      init_list_value
        [of "''extra_flags''" "init_list_field ''filters'' (init_list_field ''inputs'' r2)"]
      r2
    by (auto simp: r3_def init_list_frame)
  have p: "prepared_response h cps data q ws
           = clean_list_field ''extra_flags'' (clean_list_field ''filters'' r3)"
    by (simp add: prepared_response_def Let_def r3_def r2_def r1_def)
  from assms show ?thesis
  proof
    assume f: "field = ''filters''"
    with r3 have "clean_list_field ''filters'' r3 ''filters''
                  = Some (JArr (filter kept_item (as_list (or_empty data field))))"
      by (simp add: clean_list_kept)
    with f show ?thesis by (simp add: p clean_list_frame)
  next
    assume f: "field = ''extra_flags''"
    with r3 have "clean_list_field ''filters'' r3 ''extra_flags''
                  = Some (JArr (as_list (or_empty data field)))"
      by (simp add: clean_list_frame)
    then have "clean_list_field ''extra_flags'' (clean_list_field ''filters'' r3) ''extra_flags''
               = Some (JArr (filter kept_item (as_list (or_empty data field))))"
      by (rule clean_list_kept)
    with f show ?thesis by (simp add: p)
  qed
qed

lemma prepared_complete:
  assumes "infer_action_from_query h q \<noteq> []" and "infer_action_from_query h q \<in> set actions"
    and "get_truthy (or_empty data) ''action'' \<Longrightarrow> member_action actions (or_empty data)"
  shows "schema_complete actions (prepared_response h cps data q ws)"
proof -
  have "member_action actions (prepared_response h cps data q ws)"
    using assms by (auto simp: member_action_def prepared_action)
  moreover have "list_field (prepared_response h cps data q ws) ''inputs''"
    by (simp add: list_field_def prepared_inputs)
  moreover have "clean_list (prepared_response h cps data q ws) ''filters''"
    by (simp add: clean_list_def prepared_cleaned list_all_iff)
  moreover have "clean_list (prepared_response h cps data q ws) ''extra_flags''"
    by (simp add: clean_list_def prepared_cleaned list_all_iff)
  ultimately show ?thesis by (simp add: schema_complete_def)
qed

subsection \<open>The result\<close>

lemma repair_from_prepared:
  "repair_json_for_schema h cps data q ws
   = fix_action_validation_issues h
       (infer_format_and_codec h
          (if \<not> get_truthy (prepared_response h cps data q ws) ''inputs''
                \<and> action_needs_inputs (prepared_response h cps data q ws)
           then infer_inputs_from_query h (prepared_response h cps data q ws) q ws
           else prepared_response h cps data q ws)
          q)
       q"
  by (simp add: repair_json_for_schema_def Let_def)

lemma repair_complete:
  assumes "helpers_as_specified actions h"
    and "get_truthy (or_empty data) ''action'' \<Longrightarrow> member_action actions (or_empty data)"
  shows "schema_complete actions (repair_json_for_schema h cps data q ws)"
proof -
  from assms(1) have inf: "infer_action_from_query h q \<noteq> []" "infer_action_from_query h q \<in> set actions"
    and step5: "\<And>d. schema_complete actions d \<Longrightarrow> schema_complete actions (infer_inputs_from_query h d q ws)"
    and step6: "\<And>d. schema_complete actions d \<Longrightarrow> schema_complete actions (infer_format_and_codec h d q)"
    and step7: "\<And>d. schema_complete actions d \<Longrightarrow> schema_complete actions (fix_action_validation_issues h d q)"
    by (simp_all add: helpers_as_specified_def)
  have p: "schema_complete actions (prepared_response h cps data q ws)"
    using inf assms(2) by (rule prepared_complete)
  then have "schema_complete actions
               (if \<not> get_truthy (prepared_response h cps data q ws) ''inputs''
                     \<and> action_needs_inputs (prepared_response h cps data q ws)
                then infer_inputs_from_query h (prepared_response h cps data q ws) q ws
                else prepared_response h cps data q ws)"
    by (simp add: step5)
  then show ?thesis
    unfolding repair_from_prepared by (intro step7 step6)
qed

text \<open>
  A true action is kept by the function's own statements, whether or not it is a member
  of the enumeration; only a helper can still change it.
\<close>

lemma repair_keeps_true_action:
  assumes "get_truthy (or_empty data) ''action''"
    and "\<And>d. infer_inputs_from_query h d q ws ''action'' = d ''action''"
    and "\<And>d. infer_format_and_codec h d q ''action'' = d ''action''"
    and "\<And>d. fix_action_validation_issues h d q ''action'' = d ''action''"
  shows "repair_json_for_schema h cps data q ws ''action'' = or_empty data ''action''"
  using assms by (simp add: repair_from_prepared prepared_action)

subsection \<open>The example helpers\<close>

lemma example_helpers_as_specified: "helpers_as_specified spec_actions example_helpers"
  by (auto simp: helpers_as_specified_def example_helpers_def spec_actions_def
      schema_complete_def member_action_def list_field_def clean_list_def)

lemma repair_example:
  "map (repair_json_for_schema example_helpers (\<lambda>ws s. s) (Some example_response)
          ''make video.mp4 smaller'' example_workspace)
     [''action'', ''inputs'', ''filters'', ''extra_flags'']
   = [Some (JStr ''compress''), Some (JArr [JStr ''video.mp4'']),
      Some (JArr [JStr ''scale=1280:720'']), Some (JArr [JStr ''-y''])]"
  by code_simp

text \<open>
  Claim C6. Whatever the input of \<open>repair_json_for_schema\<close> (\<open>None\<close>, or an object with
  missing fields, \<open>null\<close> in a list field, or a scalar where a list is expected) and
  whatever the helpers, the dictionary that the function hands to the helpers has
  \<^item> as \<open>action\<close> the action of the input when that is present and true, and the
    inferred action otherwise;
  \<^item> as \<open>inputs\<close> a list: the list of the input with its strings cleaned, the empty
    list for a missing field, \<open>null\<close> or a false scalar, the one-element list of a true
    scalar;
  \<^item> as \<open>filters\<close> and \<open>extra_flags\<close> such a list with exactly its true, non-blank
    items kept: empty and whitespace-only strings are removed;

  and the result is what the helpers make of that dictionary. So the result has a
  non-empty \<open>action\<close> that is a member of the enumeration, and \<open>inputs\<close>, \<open>filters\<close>
  and \<open>extra_flags\<close> as lists without blank items, when the action of the input is
  absent, false or a member and the helpers are as section 4.2 of the spec describes
  them. A true action that is no member is not replaced by the function, as the
  two runs after the theorem show.

  The model of the function's own statements has no exception because none of them can
  raise on a dictionary of JSON values: every subscript is guarded by a membership test
  and the only conversions are \<open>str\<close> and the truth value.
\<close>

theorem repair_schema_complete:
  "prepared_response h cps data q ws ''action''
     = (if get_truthy (or_empty data) ''action'' then or_empty data ''action''
        else Some (JStr (infer_action_from_query h q)))
   \<and> prepared_response h cps data q ws ''inputs''
     = Some (JArr (case or_empty data ''inputs'' of
                     Some (JArr xs) \<Rightarrow> map (clean_input (cps ws)) xs
                   | v \<Rightarrow> as_list v))
   \<and> prepared_response h cps data q ws ''filters''
     = Some (JArr (filter kept_item (as_list (or_empty data ''filters''))))
   \<and> prepared_response h cps data q ws ''extra_flags''
     = Some (JArr (filter kept_item (as_list (or_empty data ''extra_flags''))))
   \<and> repair_json_for_schema h cps data q ws
     = fix_action_validation_issues h
         (infer_format_and_codec h
            (if \<not> get_truthy (prepared_response h cps data q ws) ''inputs''
                  \<and> action_needs_inputs (prepared_response h cps data q ws)
             then infer_inputs_from_query h (prepared_response h cps data q ws) q ws
             else prepared_response h cps data q ws)
            q)
         q
   \<and> (helpers_as_specified actions h
        \<and> (get_truthy (or_empty data) ''action'' \<longrightarrow> member_action actions (or_empty data))
      \<longrightarrow> schema_complete actions (repair_json_for_schema h cps data q ws))"
  using prepared_action [of h cps data q ws] prepared_inputs [of h cps data q ws]
    prepared_cleaned [of "''filters''" h cps data q ws]
    prepared_cleaned [of "''extra_flags''" h cps data q ws]
    repair_from_prepared [of h cps data q ws]
    repair_complete [of actions h data cps q ws]
  by simp

theorem repair_schema_complete_witness:
  "helpers_as_specified spec_actions example_helpers
   \<and> \<not> get_truthy (or_empty (Some example_response)) ''action''
   \<and> schema_complete spec_actions
        (repair_json_for_schema example_helpers (\<lambda>ws s. s) (Some example_response)
           ''make video.mp4 smaller'' example_workspace)
   \<and> prepared_response example_helpers (\<lambda>ws s. s) (Some example_response)
        ''make video.mp4 smaller'' example_workspace ''filters''
      = Some (JArr [JStr ''scale=1280:720''])"
proof -
  have h1: "helpers_as_specified spec_actions example_helpers"
    by (rule example_helpers_as_specified)
  have h2: "\<not> get_truthy (or_empty (Some example_response)) ''action''"
    by (simp add: or_empty_def example_response_def get_truthy_def)
  note t = repair_schema_complete
    [of example_helpers "\<lambda>ws s. s" "Some example_response" "''make video.mp4 smaller''"
        example_workspace spec_actions]
  from t h1 h2 have c1: "schema_complete spec_actions
        (repair_json_for_schema example_helpers (\<lambda>ws s. s) (Some example_response)
           ''make video.mp4 smaller'' example_workspace)"
    by blast
  have "or_empty (Some example_response) ''filters'' = Some (JStr ''scale=1280:720'')"
    by (simp add: or_empty_def example_response_def)
  with t have c2: "prepared_response example_helpers (\<lambda>ws s. s) (Some example_response)
        ''make video.mp4 smaller'' example_workspace ''filters''
      = Some (JArr [JStr ''scale=1280:720''])"
    by (simp add: kept_item_def strip_def is_space_def)
  from h1 h2 c1 c2 show ?thesis by (intro conjI)
qed

text \<open>
  With the example helpers, a response whose action is \<open>explode\<close> keeps it, and one
  whose action is the number 7 keeps that: the result is not schema-complete.
\<close>

theorem repair_keeps_unknown_action:
  "repair_json_for_schema example_helpers (\<lambda>ws s. s) (Some unknown_action_response)
       ''make video.mp4 smaller'' example_workspace ''action'' = Some (JStr ''explode'')
   \<and> ''explode'' \<notin> set spec_actions
   \<and> \<not> schema_complete spec_actions
         (repair_json_for_schema example_helpers (\<lambda>ws s. s) (Some unknown_action_response)
            ''make video.mp4 smaller'' example_workspace)
   \<and> repair_json_for_schema example_helpers (\<lambda>ws s. s) (Some [''action'' \<mapsto> JInt 7])
       ''make video.mp4 smaller'' example_workspace ''action'' = Some (JInt 7)"
proof -
  have keep: "\<And>data. get_truthy (or_empty data) ''action''
      \<Longrightarrow> repair_json_for_schema example_helpers (\<lambda>ws s. s) data
            ''make video.mp4 smaller'' example_workspace ''action'' = or_empty data ''action''"
    by (rule repair_keeps_true_action) (simp_all add: example_helpers_def)
  have a: "repair_json_for_schema example_helpers (\<lambda>ws s. s) (Some unknown_action_response)
       ''make video.mp4 smaller'' example_workspace ''action'' = Some (JStr ''explode'')"
    using keep [of "Some unknown_action_response"]
    by (simp add: or_empty_def unknown_action_response_def get_truthy_def)
  have b: "''explode'' \<notin> set spec_actions"
    by (simp add: spec_actions_def)
  from a b have c: "\<not> schema_complete spec_actions
         (repair_json_for_schema example_helpers (\<lambda>ws s. s) (Some unknown_action_response)
            ''make video.mp4 smaller'' example_workspace)"
    by (simp add: schema_complete_def member_action_def)
  have d: "repair_json_for_schema example_helpers (\<lambda>ws s. s) (Some [''action'' \<mapsto> JInt 7])
       ''make video.mp4 smaller'' example_workspace ''action'' = Some (JInt 7)"
    using keep [of "Some [''action'' \<mapsto> JInt 7]"]
    by (simp add: or_empty_def get_truthy_def)
  from a b c d show ?thesis by (intro conjI)
qed

end
